theory Spec2Isabelle
  imports Main "HOL-Library.Word" "HOL-Library.AList"
begin

section \<open>Values of the program\<close>

text \<open>
  A Python \<open>str\<close> is a sequence of Unicode code points; a \<open>bytes\<close> object is a
  sequence of octets. String constants of the source are ASCII and are written through
  \<open>ascii\<close>.
\<close>

type_synonym ustr = "nat list"
type_synonym byte = "8 word"

definition ascii :: "string \<Rightarrow> ustr" where
  "ascii s = map of_char s"

definition ascii_bytes :: "string \<Rightarrow> byte list" where
  "ascii_bytes s = map of_char s"

text \<open>
  The values a project dictionary holds: \<open>None\<close>, a \<open>str\<close>, the list of surplus
  cells that \<open>csv.DictReader\<close> files under its \<open>restkey\<close>, and any other value of a
  JSON request body (number, boolean, array, object). The program only ever asks two
  things of a value of the last kind, its truth value and its \<open>str()\<close>, so it is
  represented by these two.
\<close>

datatype pyval = PNone | PStr ustr | PList "ustr list" | PObj bool ustr

text \<open>
  Dictionary keys are field names; \<open>None\<close> is the \<open>restkey\<close> of \<open>csv.DictReader\<close>.
  A \<open>dict\<close> keeps insertion order, so it is an association list with distinct keys:
  \<open>d[k] = v\<close> is \<open>AList.update k v d\<close>, \<open>k in d\<close> is \<open>k \<in> set (keys d)\<close>.
\<close>

type_synonym key = "ustr option"
type_synonym pydict = "(key \<times> pyval) list"

definition keys :: "pydict \<Rightarrow> key list" where
  "keys d = map fst d"

datatype exn =
    HTTPException nat string
  | ValueError
  | KeyError
  | CsvError
  | UnicodeDecodeError
  | UnicodeEncodeError
  | AzureError
  | JWTError

definition truthy :: "pyval \<Rightarrow> bool" where
  "truthy v = (case v of PNone \<Rightarrow> False | PStr s \<Rightarrow> s \<noteq> [] | PList l \<Rightarrow> l \<noteq> []
                | PObj b _ \<Rightarrow> b)"

definition getitem :: "pydict \<Rightarrow> key \<Rightarrow> exn + pyval" where
  "getitem d k = (case map_of d k of None \<Rightarrow> Inl KeyError | Some v \<Rightarrow> Inr v)"

section \<open>UTF-8\<close>

text \<open>
  \<open>str.encode('utf-8')\<close> and \<open>bytes.decode('utf-8')\<close>, both with the default
  \<open>errors='strict'\<close>: surrogates are not encodable, and the decoder accepts exactly the
  shortest encodings of the scalar values.
\<close>

definition encode_char :: "nat \<Rightarrow> exn + byte list" where
  "encode_char c =
     (if c < 0x80 then Inr [of_nat c]
      else if c < 0x800 then Inr [of_nat (0xC0 + c div 0x40), of_nat (0x80 + c mod 0x40)]
      else if 0xD800 \<le> c \<and> c < 0xE000 then Inl UnicodeEncodeError
      else if c < 0x10000 then
        Inr [of_nat (0xE0 + c div 0x1000), of_nat (0x80 + c div 0x40 mod 0x40),
             of_nat (0x80 + c mod 0x40)]
      else if c < 0x110000 then
        Inr [of_nat (0xF0 + c div 0x40000), of_nat (0x80 + c div 0x1000 mod 0x40),
             of_nat (0x80 + c div 0x40 mod 0x40), of_nat (0x80 + c mod 0x40)]
      else Inl UnicodeEncodeError)"

fun utf8_encode :: "ustr \<Rightarrow> exn + byte list" where
  "utf8_encode [] = Inr []"
| "utf8_encode (c # cs) =
     (case encode_char c of
        Inl e \<Rightarrow> Inl e
      | Inr bs \<Rightarrow> (case utf8_encode cs of Inl e \<Rightarrow> Inl e | Inr rest \<Rightarrow> Inr (bs @ rest)))"

definition is_cont :: "byte \<Rightarrow> bool" where
  "is_cont b = (0x80 \<le> unat b \<and> unat b < 0xC0)"

definition cont_bits :: "byte \<Rightarrow> nat" where
  "cont_bits b = unat b - 0x80"

text \<open>One code point off the front of a byte sequence; \<open>None\<close> for an invalid sequence.\<close>

fun decode_char :: "byte list \<Rightarrow> (nat \<times> byte list) option" where
  "decode_char [] = None"
| "decode_char (b0 # bs) =
     (let n = unat b0 in
      if n < 0x80 then Some (n, bs)
      else if 0xC2 \<le> n \<and> n < 0xE0 then
        (case bs of
           b1 # rest \<Rightarrow>
             if is_cont b1 then Some ((n - 0xC0) * 0x40 + cont_bits b1, rest) else None
         | _ \<Rightarrow> None)
      else if 0xE0 \<le> n \<and> n < 0xF0 then
        (case bs of
           b1 # b2 # rest \<Rightarrow>
             (let c = (n - 0xE0) * 0x1000 + cont_bits b1 * 0x40 + cont_bits b2 in
              if is_cont b1 \<and> is_cont b2 \<and> 0x800 \<le> c \<and> \<not> (0xD800 \<le> c \<and> c < 0xE000)
              then Some (c, rest) else None)
         | _ \<Rightarrow> None)
      else if 0xF0 \<le> n \<and> n < 0xF5 then
        (case bs of
           b1 # b2 # b3 # rest \<Rightarrow>
             (let c = (n - 0xF0) * 0x40000 + cont_bits b1 * 0x1000 + cont_bits b2 * 0x40
                      + cont_bits b3 in
              if is_cont b1 \<and> is_cont b2 \<and> is_cont b3 \<and> 0x10000 \<le> c \<and> c < 0x110000
              then Some (c, rest) else None)
         | _ \<Rightarrow> None)
      else None)"

function utf8_decode :: "byte list \<Rightarrow> exn + ustr" where
  "utf8_decode bs =
     (if bs = [] then Inr []
      else case decode_char bs of
             None \<Rightarrow> Inl UnicodeDecodeError
           | Some (c, rest) \<Rightarrow>
               (case utf8_decode rest of Inl e \<Rightarrow> Inl e | Inr cs \<Rightarrow> Inr (c # cs)))"
  by pat_completeness auto
termination
proof (relation "measure length")
  fix bs :: "byte list" and x2 c rest
  assume "bs \<noteq> []" and "decode_char bs = Some x2" and "(c, rest) = x2"
  then have "decode_char bs = Some (c, rest)" by simp
  then have "length rest < length bs"
    by (cases bs) (auto simp: Let_def split: if_splits list.splits)
  then show "(rest, bs) \<in> measure length" by simp
qed simp

declare utf8_decode.simps [simp del]

section \<open>The csv module, excel dialect\<close>

text \<open>
  \<open>csv.DictReader\<close> and \<open>csv.DictWriter\<close> are called with their defaults: dialect
  \<open>excel\<close> (delimiter comma, quote character double quote, \<open>doublequote\<close> on, no escape
  character, \<open>skipinitialspace\<close> off, not strict, line terminator CR LF, minimal
  quoting), \<open>restkey=None\<close>, \<open>restval=None\<close> on reading, \<open>restval=""\<close> and
  \<open>extrasaction="raise"\<close> on writing. The reader is CPython's state machine
  (Python 3.11 and later, where a NUL is an ordinary character); the states that only an
  escape character reaches are left out.
\<close>

definition LF :: nat where "LF = 10"
definition CR :: nat where "CR = 13"
definition delimiter :: nat where "delimiter = 44"
definition quotechar :: nat where "quotechar = 34"
definition lineterminator :: ustr where "lineterminator = [CR, LF]"
definition field_limit :: nat where "field_limit = 131072"

subsection \<open>Reading\<close>

text \<open>
  Iterating \<open>io.StringIO(csv_data)\<close> yields the text cut after every line feed (the
  \<open>newline\<close> of a \<open>StringIO\<close> defaults to \<open>'\\n'\<close>: no translation, lines end at LF
  only).
\<close>

fun readlines :: "ustr \<Rightarrow> ustr list" where
  "readlines [] = []"
| "readlines (c # cs) =
     (if c = LF then [c] # readlines cs
      else case readlines cs of [] \<Rightarrow> [[c]] | l # ls \<Rightarrow> (c # l) # ls)"

datatype ParserState =
  START_RECORD | START_FIELD | IN_FIELD | IN_QUOTED_FIELD | QUOTE_IN_QUOTED_FIELD | EAT_CRNL

record reader =
  state :: ParserState
  rfields :: "ustr list"
  field :: ustr

definition parse_reset :: reader where
  "parse_reset = \<lparr>state = START_RECORD, rfields = [], field = []\<rparr>"

definition parse_save_field :: "reader \<Rightarrow> reader" where
  "parse_save_field r = r\<lparr>rfields := rfields r @ [field r], field := []\<rparr>"

definition parse_add_char :: "reader \<Rightarrow> nat \<Rightarrow> exn + reader" where
  "parse_add_char r c =
     (if length (field r) \<ge> field_limit then Inl CsvError
      else Inr (r\<lparr>field := field r @ [c]\<rparr>))"

definition set_state :: "ParserState \<Rightarrow> exn + reader \<Rightarrow> exn + reader" where
  "set_state s x = (case x of Inl e \<Rightarrow> Inl e | Inr r \<Rightarrow> Inr (r\<lparr>state := s\<rparr>))"

text \<open>An end of line is \<open>None\<close>, a character of the line is \<open>Some c\<close>.\<close>

definition is_eol :: "nat option \<Rightarrow> bool" where
  "is_eol c = (c = Some LF \<or> c = Some CR \<or> c = None)"

definition start_field :: "reader \<Rightarrow> nat option \<Rightarrow> exn + reader" where
  "start_field r c =
     (if is_eol c then
        Inr ((parse_save_field r)\<lparr>state := (if c = None then START_RECORD else EAT_CRNL)\<rparr>)
      else if c = Some quotechar then Inr (r\<lparr>state := IN_QUOTED_FIELD\<rparr>)
      else if c = Some delimiter then Inr (parse_save_field r)
      else set_state IN_FIELD (parse_add_char r (the c)))"

definition parse_process_char :: "reader \<Rightarrow> nat option \<Rightarrow> exn + reader" where
  "parse_process_char r c =
     (case state r of
        START_RECORD \<Rightarrow>
          (if c = None then Inr r
           else if c = Some LF \<or> c = Some CR then Inr (r\<lparr>state := EAT_CRNL\<rparr>)
           else start_field (r\<lparr>state := START_FIELD\<rparr>) c)
      | START_FIELD \<Rightarrow> start_field r c
      | IN_FIELD \<Rightarrow>
          (if is_eol c then
             Inr ((parse_save_field r)\<lparr>state := (if c = None then START_RECORD else EAT_CRNL)\<rparr>)
           else if c = Some delimiter then Inr ((parse_save_field r)\<lparr>state := START_FIELD\<rparr>)
           else parse_add_char r (the c))
      | IN_QUOTED_FIELD \<Rightarrow>
          (if c = None then Inr r
           else if c = Some quotechar then Inr (r\<lparr>state := QUOTE_IN_QUOTED_FIELD\<rparr>)
           else parse_add_char r (the c))
      | QUOTE_IN_QUOTED_FIELD \<Rightarrow>
          (if c = Some quotechar then set_state IN_QUOTED_FIELD (parse_add_char r (the c))
           else if c = Some delimiter then Inr ((parse_save_field r)\<lparr>state := START_FIELD\<rparr>)
           else if is_eol c then
             Inr ((parse_save_field r)\<lparr>state := (if c = None then START_RECORD else EAT_CRNL)\<rparr>)
           else set_state IN_FIELD (parse_add_char r (the c)))
      | EAT_CRNL \<Rightarrow>
          (if c = Some LF \<or> c = Some CR then Inr r
           else if c = None then Inr (r\<lparr>state := START_RECORD\<rparr>)
           else Inl CsvError))"

text \<open>The characters of one line, then the end of line.\<close>

fun parse_chars :: "reader \<Rightarrow> ustr \<Rightarrow> exn + reader" where
  "parse_chars r [] = Inr r"
| "parse_chars r (c # cs) =
     (case parse_process_char r (Some c) of Inl e \<Rightarrow> Inl e | Inr r' \<Rightarrow> parse_chars r' cs)"

definition parse_line :: "reader \<Rightarrow> ustr \<Rightarrow> exn + reader" where
  "parse_line r l =
     (case parse_chars r l of Inl e \<Rightarrow> Inl e | Inr r' \<Rightarrow> parse_process_char r' None)"

text \<open>
  \<open>list(csv.reader(lines))\<close>: the reader takes lines until the state is back at
  \<open>START_RECORD\<close> and returns the cells of the record; when the lines run out inside a
  record it returns what it has if a cell is under way or a quote is open. \<open>r\<close> is the
  reader inside the current record; a new record starts from \<open>parse_reset\<close>.
\<close>

fun reader_rows :: "reader \<Rightarrow> ustr list \<Rightarrow> exn + ustr list list" where
  "reader_rows r [] =
     (if field r \<noteq> [] \<or> state r = IN_QUOTED_FIELD then Inr [rfields (parse_save_field r)]
      else Inr [])"
| "reader_rows r (l # ls) =
     (case parse_line r l of
        Inl e \<Rightarrow> Inl e
      | Inr r' \<Rightarrow>
          if state r' \<noteq> START_RECORD then reader_rows r' ls
          else (case reader_rows parse_reset ls of
                  Inl e \<Rightarrow> Inl e
                | Inr rows \<Rightarrow> Inr (rfields r' # rows)))"

text \<open>
  \<open>csv.DictReader.__next__\<close> once it has a row: \<open>dict(zip(fieldnames, row))\<close>, the
  surplus cells of a long row under \<open>restkey\<close>, \<open>restval\<close> for the missing cells of a
  short one.
\<close>

definition make_dict :: "ustr list \<Rightarrow> ustr list \<Rightarrow> pydict" where
  "make_dict fieldnames row =
     (let d = AList.updates (map Some fieldnames) (map PStr row) [];
          lf = length fieldnames;
          lr = length row
      in if lf < lr then AList.update None (PList (drop lf row)) d
         else if lf > lr then fold (\<lambda>key. AList.update (Some key) PNone) (drop lr fieldnames) d
         else d)"

text \<open>
  \<open>list(csv.DictReader(lines))\<close>, from the rows of the underlying reader: the first row
  is \<open>fieldnames\<close>, blank rows are skipped.
\<close>

definition DictReader :: "ustr list list \<Rightarrow> pydict list" where
  "DictReader rows =
     (case rows of
        [] \<Rightarrow> []
      | fieldnames # rest \<Rightarrow> map (make_dict fieldnames) (filter (\<lambda>row. row \<noteq> []) rest))"

subsection \<open>Writing\<close>

fun join :: "'a list \<Rightarrow> 'a list list \<Rightarrow> 'a list" where
  "join sep [] = []"
| "join sep [x] = x"
| "join sep (x # y # ys) = x @ sep @ join sep (y # ys)"

text \<open>
  The text of a cell: \<open>None\<close> is empty, a \<open>str\<close> is itself, anything else goes
  through \<open>str()\<close>. The \<open>str()\<close> of a list needs the \<open>repr()\<close> of its items, which
  depends on the Unicode character database and is a parameter.
\<close>

definition list_str :: "(ustr \<Rightarrow> ustr) \<Rightarrow> ustr list \<Rightarrow> ustr" where
  "list_str repr l = ascii ''['' @ join (ascii '', '') (map repr l) @ ascii '']''"

definition cell_text :: "(ustr \<Rightarrow> ustr) \<Rightarrow> pyval \<Rightarrow> ustr" where
  "cell_text repr v =
     (case v of PNone \<Rightarrow> [] | PStr s \<Rightarrow> s | PList l \<Rightarrow> list_str repr l | PObj _ t \<Rightarrow> t)"

definition special :: "nat \<Rightarrow> bool" where
  "special c = (c = delimiter \<or> c = quotechar \<or> c \<in> set lineterminator)"

definition join_append :: "ustr \<Rightarrow> bool \<Rightarrow> ustr" where
  "join_append fld quoted =
     (if quoted \<or> list_ex special fld
      then [quotechar] @ concat (map (\<lambda>c. if c = quotechar then [quotechar, c] else [c]) fld)
           @ [quotechar]
      else fld)"

definition writerow :: "ustr list \<Rightarrow> ustr" where
  "writerow row =
     (let rec = join [delimiter] (map (\<lambda>fld. join_append fld False) row)
      in (if row \<noteq> [] \<and> rec = [] then join_append [] True else rec) @ lineterminator)"

definition dict_to_list :: "key list \<Rightarrow> pydict \<Rightarrow> exn + pyval list" where
  "dict_to_list fieldnames rowdict =
     (if list_ex (\<lambda>k. k \<notin> set fieldnames) (keys rowdict) then Inl ValueError
      else Inr (map (\<lambda>key. case map_of rowdict key of Some v \<Rightarrow> v | None \<Rightarrow> PStr [])
                  fieldnames))"

definition key_val :: "key \<Rightarrow> pyval" where
  "key_val k = (case k of None \<Rightarrow> PNone | Some s \<Rightarrow> PStr s)"

definition DictWriter_writerow ::
  "(ustr \<Rightarrow> ustr) \<Rightarrow> key list \<Rightarrow> pydict \<Rightarrow> ustr \<Rightarrow> exn + ustr" where
  "DictWriter_writerow repr fieldnames rowdict output =
     (case dict_to_list fieldnames rowdict of
        Inl e \<Rightarrow> Inl e
      | Inr row \<Rightarrow> Inr (output @ writerow (map (cell_text repr) row)))"

definition writeheader :: "(ustr \<Rightarrow> ustr) \<Rightarrow> key list \<Rightarrow> ustr \<Rightarrow> exn + ustr" where
  "writeheader repr fieldnames output =
     (let header = AList.updates fieldnames (map key_val fieldnames) []
      in DictWriter_writerow repr fieldnames header output)"

fun writerows :: "(ustr \<Rightarrow> ustr) \<Rightarrow> key list \<Rightarrow> pydict list \<Rightarrow> ustr \<Rightarrow> exn + ustr" where
  "writerows repr fieldnames [] output = Inr output"
| "writerows repr fieldnames (d # ds) output =
     (case DictWriter_writerow repr fieldnames d output of
        Inl e \<Rightarrow> Inl e
      | Inr output' \<Rightarrow> writerows repr fieldnames ds output')"

section \<open>The dataset store\<close>

text \<open>
  The blob \<open>Development_Status.csv\<close> and what the transport does: whether the client can
  be built from the connection string, whether a download and an upload go through.
  \<open>blob = None\<close> is a blob that does not exist.
\<close>

record storage =
  connect_ok :: bool
  download_ok :: bool
  upload_ok :: bool
  blob :: "byte list option"

definition get_blob_client :: "storage \<Rightarrow> exn + unit" where
  "get_blob_client st =
     (if connect_ok st then Inr ()
      else Inl (HTTPException 500 ''Failed to connect to Azure Storage''))"

definition download_blob :: "storage \<Rightarrow> exn + byte list" where
  "download_blob st =
     (if download_ok st then (case blob st of None \<Rightarrow> Inl AzureError | Some b \<Rightarrow> Inr b)
      else Inl AzureError)"

definition upload_blob :: "byte list \<Rightarrow> storage \<Rightarrow> exn + storage" where
  "upload_blob data st = (if upload_ok st then Inr (st\<lparr>blob := Some data\<rparr>) else Inl AzureError)"

text \<open>The loop of \<open>load_data\<close> over one project: a value that is not true becomes \<open>None\<close>.\<close>

definition clean_project :: "pydict \<Rightarrow> pydict" where
  "clean_project project =
     fold (\<lambda>(key, value) d. if \<not> truthy value then AList.update key PNone d else d)
       project project"

definition load_data_body :: "storage \<Rightarrow> exn + pydict list" where
  "load_data_body st =
     (case get_blob_client st of
        Inl e \<Rightarrow> Inl e
      | Inr _ \<Rightarrow>
     (case download_blob st of
        Inl e \<Rightarrow> Inl e
      | Inr data \<Rightarrow>
     (case utf8_decode data of
        Inl e \<Rightarrow> Inl e
      | Inr csv_data \<Rightarrow>
     (case reader_rows parse_reset (readlines csv_data) of
        Inl e \<Rightarrow> Inl e
      | Inr rows \<Rightarrow> Inr (map clean_project (DictReader rows))))))"

definition load_data :: "storage \<Rightarrow> exn + pydict list" where
  "load_data st =
     (case load_data_body st of
        Inl e \<Rightarrow> Inl (HTTPException 500 ''Failed to load data'')
      | Inr projects \<Rightarrow> Inr projects)"

definition save_data_body :: "(ustr \<Rightarrow> ustr) \<Rightarrow> pydict list \<Rightarrow> storage \<Rightarrow> exn + storage" where
  "save_data_body repr projects st =
     (let fieldnames = keys (hd projects) in
      case writeheader repr fieldnames [] of
        Inl e \<Rightarrow> Inl e
      | Inr output \<Rightarrow>
     (case writerows repr fieldnames projects output of
        Inl e \<Rightarrow> Inl e
      | Inr output' \<Rightarrow>
     (case get_blob_client st of
        Inl e \<Rightarrow> Inl e
      | Inr _ \<Rightarrow>
     (case utf8_encode output' of
        Inl e \<Rightarrow> Inl e
      | Inr data \<Rightarrow> upload_blob data st))))"

definition save_data :: "(ustr \<Rightarrow> ustr) \<Rightarrow> pydict list \<Rightarrow> storage \<Rightarrow> (exn + unit) \<times> storage" where
  "save_data repr projects st =
     (if projects = [] then (Inr (), st)
      else case save_data_body repr projects st of
             Inl e \<Rightarrow> (Inl (HTTPException 500 ''Failed to save data''), st)
           | Inr st' \<Rightarrow> (Inr (), st'))"

section \<open>Token issuance\<close>

text \<open>
  A \<open>datetime\<close> is its number of microseconds since the epoch, a \<open>timedelta\<close> a number of
  microseconds. \<open>jwt.encode\<close> of python-jose is a parameter: it takes the claims, the
  key and the algorithm and returns the token or raises. The environment holds what
  \<open>os.getenv\<close> returns (\<open>None\<close> for a variable that is not set).
\<close>

datatype claim = ClaimStr ustr | ClaimTime int

type_synonym claims = "(string \<times> claim) list"
type_synonym jwt_encoder = "claims \<Rightarrow> ustr option \<Rightarrow> string \<Rightarrow> exn + ustr"

record environ =
  SECRET_KEY :: "ustr option"
  ADMIN_USERNAME :: "ustr option"
  ADMIN_PASSWORD :: "ustr option"

record Token =
  access_token :: ustr
  token_type :: string

definition ALGORITHM :: string where "ALGORITHM = ''HS256''"
definition ACCESS_TOKEN_EXPIRE_MINUTES :: int where "ACCESS_TOKEN_EXPIRE_MINUTES = 30"

definition timedelta_minutes :: "int \<Rightarrow> int" where
  "timedelta_minutes m = m * 60 * 1000000"

text \<open>\<open>if expires_delta:\<close> is false for \<open>None\<close> and for a zero \<open>timedelta\<close>.\<close>

definition create_access_token ::
  "jwt_encoder \<Rightarrow> environ \<Rightarrow> int \<Rightarrow> claims \<Rightarrow> int option \<Rightarrow> exn + ustr" where
  "create_access_token jwt_encode env utcnow data expires_delta =
     (let to_encode = data;
          expire = (if expires_delta \<noteq> None \<and> expires_delta \<noteq> Some 0
                    then utcnow + the expires_delta
                    else utcnow + timedelta_minutes 15);
          to_encode = AList.update ''exp'' (ClaimTime expire) to_encode
      in jwt_encode to_encode (SECRET_KEY env) ALGORITHM)"

definition login_for_access_token ::
  "jwt_encoder \<Rightarrow> environ \<Rightarrow> int \<Rightarrow> ustr \<Rightarrow> ustr \<Rightarrow> exn + Token" where
  "login_for_access_token jwt_encode env utcnow username password =
     (if Some username \<noteq> ADMIN_USERNAME env \<or> Some password \<noteq> ADMIN_PASSWORD env
      then Inl (HTTPException 401 ''Incorrect username or password'')
      else
        let access_token_expires = timedelta_minutes ACCESS_TOKEN_EXPIRE_MINUTES in
        case create_access_token jwt_encode env utcnow [(''sub'', ClaimStr username)]
               (Some access_token_expires) of
          Inl e \<Rightarrow> Inl e
        | Inr t \<Rightarrow> Inr \<lparr>access_token = t, token_type = ''bearer''\<rparr>)"

section \<open>The project endpoints\<close>

text \<open>
  The bodies of the handlers, which run once the rate limiter and \<open>get_current_user\<close>
  have let the request through. A handler takes the store and returns its response or
  the exception it raises, and the store it leaves.
\<close>

text \<open>\<open>p['Category'] == category and p['Project Name'] == project_name\<close>\<close>

definition is_project :: "ustr \<Rightarrow> ustr \<Rightarrow> pydict \<Rightarrow> exn + bool" where
  "is_project category project_name p =
     (case getitem p (Some (ascii ''Category'')) of
        Inl e \<Rightarrow> Inl e
      | Inr c \<Rightarrow>
          if c \<noteq> PStr category then Inr False
          else (case getitem p (Some (ascii ''Project Name'')) of
                  Inl e \<Rightarrow> Inl e
                | Inr n \<Rightarrow> Inr (n = PStr project_name)))"

text \<open>\<open>next((i for i, p in enumerate(projects) if ...), -1)\<close>, counting from \<open>i\<close>.\<close>

fun project_index :: "ustr \<Rightarrow> ustr \<Rightarrow> pydict list \<Rightarrow> int \<Rightarrow> exn + int" where
  "project_index category project_name [] i = Inr (- 1)"
| "project_index category project_name (p # ps) i =
     (case is_project category project_name p of
        Inl e \<Rightarrow> Inl e
      | Inr m \<Rightarrow> if m then Inr i else project_index category project_name ps (i + 1))"

text \<open>The loop \<open>for key, value in project_data.items()\<close> of \<open>update_project\<close>.\<close>

definition update_fields :: "pydict \<Rightarrow> pydict \<Rightarrow> pydict" where
  "update_fields project project_data =
     fold (\<lambda>(key, value) d. if key \<in> set (keys d) then AList.update key value d else d)
       project_data project"

text \<open>The lines of \<open>update_project\<close> between \<open>load_data\<close> and \<open>save_data\<close>.\<close>

definition updated_projects :: "ustr \<Rightarrow> ustr \<Rightarrow> pydict \<Rightarrow> pydict list \<Rightarrow> exn + pydict list" where
  "updated_projects category project_name project_data projects =
     (case project_index category project_name projects 0 of
        Inl e \<Rightarrow> Inl e
      | Inr i \<Rightarrow>
          if i = - 1 then Inl (HTTPException 404 ''Project not found'')
          else Inr (projects[nat i := update_fields (projects ! nat i) project_data]))"

definition update_project ::
  "(ustr \<Rightarrow> ustr) \<Rightarrow> ustr \<Rightarrow> ustr \<Rightarrow> pydict \<Rightarrow> storage \<Rightarrow> (exn + string) \<times> storage" where
  "update_project repr category project_name project_data st =
     (let body =
        (case load_data st of
           Inl e \<Rightarrow> (Inl e, st)
         | Inr projects \<Rightarrow>
        (case updated_projects category project_name project_data projects of
           Inl e \<Rightarrow> (Inl e, st)
         | Inr projects' \<Rightarrow>
        (case save_data repr projects' st of
           (Inl e, st') \<Rightarrow> (Inl e, st')
         | (Inr _, st') \<Rightarrow> (Inr ''Project updated successfully'', st'))))
      in case body of
           (Inl e, st') \<Rightarrow> (Inl (HTTPException 500 ''Failed to update project''), st')
         | (Inr msg, st') \<Rightarrow> (Inr msg, st'))"

definition add_project ::
  "(ustr \<Rightarrow> ustr) \<Rightarrow> pydict \<Rightarrow> storage \<Rightarrow> (exn + string) \<times> storage" where
  "add_project repr project_data st =
     (let body =
        (case load_data st of
           Inl e \<Rightarrow> (Inl e, st)
         | Inr projects \<Rightarrow>
        (case save_data repr (projects @ [project_data]) st of
           (Inl e, st') \<Rightarrow> (Inl e, st')
         | (Inr _, st') \<Rightarrow> (Inr ''Project added successfully'', st')))
      in case body of
           (Inl e, st') \<Rightarrow> (Inl (HTTPException 500 ''Failed to add project''), st')
         | (Inr msg, st') \<Rightarrow> (Inr msg, st'))"

text \<open>
  \<open>[p for p in projects if not (p['Category'] == category and
  p['Project Name'] == project_name)]\<close>
\<close>

fun remaining_projects :: "ustr \<Rightarrow> ustr \<Rightarrow> pydict list \<Rightarrow> exn + pydict list" where
  "remaining_projects category project_name [] = Inr []"
| "remaining_projects category project_name (p # ps) =
     (case is_project category project_name p of
        Inl e \<Rightarrow> Inl e
      | Inr m \<Rightarrow>
          (case remaining_projects category project_name ps of
             Inl e \<Rightarrow> Inl e
           | Inr rest \<Rightarrow> Inr (if \<not> m then p # rest else rest)))"

definition delete_project ::
  "(ustr \<Rightarrow> ustr) \<Rightarrow> ustr \<Rightarrow> ustr \<Rightarrow> storage \<Rightarrow> (exn + string) \<times> storage" where
  "delete_project repr category project_name st =
     (let body =
        (case load_data st of
           Inl e \<Rightarrow> (Inl e, st)
         | Inr projects \<Rightarrow>
        (let original_count = length projects in
         case remaining_projects category project_name projects of
           Inl e \<Rightarrow> (Inl e, st)
         | Inr projects' \<Rightarrow>
             if length projects' = original_count
             then (Inl (HTTPException 404 ''Project not found''), st)
             else (case save_data repr projects' st of
                     (Inl e, st') \<Rightarrow> (Inl e, st')
                   | (Inr _, st') \<Rightarrow> (Inr ''Project deleted successfully'', st'))))
      in case body of
           (Inl e, st') \<Rightarrow> (Inl (HTTPException 500 ''Failed to delete project''), st')
         | (Inr msg, st') \<Rightarrow> (Inr msg, st'))"

section \<open>Example data\<close>

text \<open>
  A store whose blob holds a header and one project, the projects it loads as, and the
  \<open>repr()\<close> of a \<open>str\<close> of printable characters with no quote or backslash in it.
\<close>

definition CRLF :: string where "CRLF = [CHR 0x0D, CHR 0x0A]"

definition example_csv :: string where
  "example_csv = ''Category,Project Name,Due'' @ CRLF @ ''Rezoning,Oak St,'' @ CRLF"

definition example_store :: storage where
  "example_store =
     \<lparr>connect_ok = True, download_ok = True, upload_ok = True,
      blob = Some (ascii_bytes example_csv)\<rparr>"

definition example_projects :: "pydict list" where
  "example_projects =
     [[(Some (ascii ''Category''), PStr (ascii ''Rezoning'')),
       (Some (ascii ''Project Name''), PStr (ascii ''Oak St'')),
       (Some (ascii ''Due''), PNone)]]"

definition plain_repr :: "ustr \<Rightarrow> ustr" where
  "plain_repr s = ascii [CHR 0x27] @ s @ ascii [CHR 0x27]"


definition example_environ :: environ where
  "example_environ =
     \<lparr>SECRET_KEY = Some (ascii ''secret''), ADMIN_USERNAME = Some (ascii ''admin''),
      ADMIN_PASSWORD = Some (ascii ''hunter2'')\<rparr>"

text \<open>A stand-in for \<open>jwt.encode\<close>: the subject and the expiry, unsigned.\<close>

definition example_encode :: jwt_encoder where
  "example_encode cl k alg = Inr (concat (map (\<lambda>(n, v). case v of ClaimStr s \<Rightarrow> s | ClaimTime t \<Rightarrow> [nat t]) cl))"

text \<open>
  A store with three projects, the first and the third with the same category and name;
  the request body that sets the due date; the projects and the blob once the first of
  the two is updated.
\<close>

definition dup_csv :: string where
  "dup_csv = ''Category,Project Name,Due'' @ CRLF @ ''R,Oak,'' @ CRLF @ ''P,Elm,x'' @ CRLF
             @ ''R,Oak,y'' @ CRLF"

definition dup_store :: storage where
  "dup_store =
     \<lparr>connect_ok = True, download_ok = True, upload_ok = True,
      blob = Some (ascii_bytes dup_csv)\<rparr>"

definition dup_projects :: "pydict list" where
  "dup_projects =
     [[(Some (ascii ''Category''), PStr (ascii ''R'')),
       (Some (ascii ''Project Name''), PStr (ascii ''Oak'')),
       (Some (ascii ''Due''), PNone)],
      [(Some (ascii ''Category''), PStr (ascii ''P'')),
       (Some (ascii ''Project Name''), PStr (ascii ''Elm'')),
       (Some (ascii ''Due''), PStr (ascii ''x''))],
      [(Some (ascii ''Category''), PStr (ascii ''R'')),
       (Some (ascii ''Project Name''), PStr (ascii ''Oak'')),
       (Some (ascii ''Due''), PStr (ascii ''y''))]]"

definition dup_patch :: pydict where
  "dup_patch = [(Some (ascii ''Due''), PStr (ascii ''03/15''))]"

definition dup_updated :: "pydict list" where
  "dup_updated =
     [[(Some (ascii ''Category''), PStr (ascii ''R'')),
       (Some (ascii ''Project Name''), PStr (ascii ''Oak'')),
       (Some (ascii ''Due''), PStr (ascii ''03/15''))],
      [(Some (ascii ''Category''), PStr (ascii ''P'')),
       (Some (ascii ''Project Name''), PStr (ascii ''Elm'')),
       (Some (ascii ''Due''), PStr (ascii ''x''))],
      [(Some (ascii ''Category''), PStr (ascii ''R'')),
       (Some (ascii ''Project Name''), PStr (ascii ''Oak'')),
       (Some (ascii ''Due''), PStr (ascii ''y''))]]"

definition dup_updated_csv :: string where
  "dup_updated_csv = ''Category,Project Name,Due'' @ CRLF @ ''R,Oak,03/15'' @ CRLF
             @ ''P,Elm,x'' @ CRLF @ ''R,Oak,y'' @ CRLF"

text \<open>
  A store whose one data row has a cell more than the header has columns, and what it
  loads as: \<open>csv.DictReader\<close> puts the surplus cells in a list under the key \<open>None\<close>.
\<close>

definition surplus_csv :: string where
  "surplus_csv = ''A'' @ CRLF @ ''1,'' @ CRLF"

definition surplus_store :: storage where
  "surplus_store =
     \<lparr>connect_ok = True, download_ok = True, upload_ok = True,
      blob = Some (ascii_bytes surplus_csv)\<rparr>"

definition surplus_projects :: "pydict list" where
  "surplus_projects = [[(Some (ascii ''A''), PStr (ascii ''1'')), (None, PList [[]])]]"

text \<open>
  The blob that \<open>save_data\<close> writes for these projects (the key \<open>None\<close> gives an
  empty header cell, the list is written as its \<open>str()\<close>), and what it loads as.
\<close>

definition surplus_saved_csv :: string where
  "surplus_saved_csv = ''A,'' @ CRLF @ ''1,['' @ [CHR 0x27, CHR 0x27] @ '']'' @ CRLF"

definition surplus_reloaded :: "pydict list" where
  "surplus_reloaded =
     [[(Some (ascii ''A''), PStr (ascii ''1'')),
       (Some [], PStr (ascii (''['' @ [CHR 0x27, CHR 0x27] @ '']'')))]]"

section \<open>The text that \<open>save_data\<close> is to write\<close>

text \<open>
  The header cells are the field names of the first project; the cells of a project are,
  for each of these field names in turn, the text of its value, empty where the project
  has no such field; the text is the header row followed by one row for each project.
\<close>

definition header_cells :: "key list \<Rightarrow> ustr list" where
  "header_cells fieldnames = map (\<lambda>k. case k of None \<Rightarrow> [] | Some s \<Rightarrow> s) fieldnames"

definition row_cells :: "(ustr \<Rightarrow> ustr) \<Rightarrow> key list \<Rightarrow> pydict \<Rightarrow> ustr list" where
  "row_cells repr fieldnames d =
     map (\<lambda>k. case map_of d k of None \<Rightarrow> [] | Some v \<Rightarrow> cell_text repr v) fieldnames"

definition csv_text :: "(ustr \<Rightarrow> ustr) \<Rightarrow> pydict list \<Rightarrow> ustr" where
  "csv_text repr projects =
     (let fieldnames = keys (hd projects)
      in concat (map writerow (header_cells fieldnames # map (row_cells repr fieldnames) projects)))"


text \<open>What the loop of \<open>load_data\<close> makes of one value.\<close>

definition clean_value :: "pyval \<Rightarrow> pyval" where
  "clean_value v = (if truthy v then v else PNone)"

text \<open>
  The values that \<open>csv.DictReader\<close> gives a row: \<open>None\<close> for a missing cell, a \<open>str\<close>
  for a cell, and a list that is not empty for the surplus cells.
\<close>

definition reader_value :: "pyval \<Rightarrow> bool" where
  "reader_value v =
     (case v of PNone \<Rightarrow> True | PStr _ \<Rightarrow> True | PList l \<Rightarrow> l \<noteq> [] | PObj _ _ \<Rightarrow> False)"


section \<open>Notions for the round trip through the store\<close>

text \<open>
  The code points that strict UTF-8 encodes: all but the surrogates, up to U+10FFFF.
\<close>

definition valid_char :: "nat \<Rightarrow> bool" where
  "valid_char c = (c < 0xD800 \<or> (0xE000 \<le> c \<and> c < 0x110000))"

text \<open>
  A text that the reader accepts as one cell and that can be encoded; a reader all of
  whose cells so far are such texts.
\<close>

definition good_text :: "ustr \<Rightarrow> bool" where
  "good_text s = (length s \<le> field_limit \<and> list_all valid_char s)"

definition good_reader :: "reader \<Rightarrow> bool" where
  "good_reader r = (list_all good_text (rfields r) \<and> good_text (field r))"

text \<open>
  The values of a project that \<open>load_data\<close> has read from cells: \<open>None\<close>, or a
  \<open>str\<close> that is not empty.
\<close>

definition stored_value :: "pyval \<Rightarrow> bool" where
  "stored_value v = (case v of PNone \<Rightarrow> True | PStr s \<Rightarrow> s \<noteq> [] \<and> good_text s | _ \<Rightarrow> False)"

text \<open>
  The keys of a \<open>dict\<close> into which the keys \<open>ks\<close> are entered in turn, after the keys
  \<open>acc\<close>: each key stays where it was entered first.
\<close>

definition first_keys :: "'a list \<Rightarrow> 'a list \<Rightarrow> 'a list" where
  "first_keys ks acc = fold (\<lambda>k acc. if k \<in> set acc then acc else acc @ [k]) ks acc"

text \<open>
  The reader on a text rather than on its lines; the cell as the writer quotes it; the
  cells of a row joined by the delimiter; the state of the reader after a written cell.
\<close>

definition read_text :: "reader \<Rightarrow> ustr \<Rightarrow> exn + ustr list list" where
  "read_text r text = reader_rows r (readlines text)"

definition escape_quotes :: "ustr \<Rightarrow> ustr" where
  "escape_quotes fld = concat (map (\<lambda>c. if c = quotechar then [quotechar, c] else [c]) fld)"

definition row_body :: "ustr list \<Rightarrow> ustr" where
  "row_body row = join [delimiter] (map (\<lambda>fld. join_append fld False) row)"

definition after_field :: "ParserState \<Rightarrow> ustr \<Rightarrow> ParserState" where
  "after_field s fld =
     (if list_ex special fld then QUOTE_IN_QUOTED_FIELD else if fld = [] then s else IN_FIELD)"


section \<open>Properties of the store and of the handlers\<close>

lemmas reader_defs = LF_def CR_def parse_line_def parse_process_char_def parse_reset_def
  start_field_def is_eol_def parse_add_char_def parse_save_field_def set_state_def
  field_limit_def delimiter_def quotechar_def

lemmas writer_defs = writeheader_def DictWriter_writerow_def dict_to_list_def keys_def
  key_val_def writerow_def join_append_def special_def cell_text_def lineterminator_def
  LF_def CR_def delimiter_def quotechar_def

lemma example_decode:
  "utf8_decode (ascii_bytes example_csv) = Inr (ascii example_csv)"
  by (simp add: utf8_decode.simps ascii_bytes_def ascii_def CRLF_def example_csv_def)

lemma example_rows:
  "reader_rows parse_reset (readlines (ascii example_csv))
   = Inr [[ascii ''Category'', ascii ''Project Name'', ascii ''Due''], [ascii ''Rezoning'', ascii ''Oak St'', []]]"
  by (simp add: ascii_def CRLF_def example_csv_def reader_defs)

lemma load_example: "load_data example_store = Inr example_projects"
proof -
  have "load_data_body example_store =
          Inr (map clean_project (DictReader
            [[ascii ''Category'', ascii ''Project Name'', ascii ''Due''],
             [ascii ''Rezoning'', ascii ''Oak St'', []]]))"
    by (simp add: load_data_body_def example_store_def get_blob_client_def download_blob_def
        example_decode example_rows)
  then show ?thesis
    by (simp add: load_data_def DictReader_def make_dict_def AList.updates_def clean_project_def
        truthy_def example_projects_def ascii_def)
qed

lemma project_index_found:
  "project_index c n ps k = Inr i \<Longrightarrow> i \<noteq> - 1 \<Longrightarrow> 0 \<le> k \<Longrightarrow>
   k \<le> i \<and> nat (i - k) < length ps \<and> is_project c n (ps ! nat (i - k)) = Inr True \<and>
   (\<forall>j<nat (i - k). is_project c n (ps ! j) = Inr False)"
proof (induction ps arbitrary: k)
  case Nil
  then show ?case by simp
next
  case (Cons p ps)
  show ?case
  proof (cases "is_project c n p")
    case (Inl e)
    with Cons.prems show ?thesis by simp
  next
    case (Inr m)
    show ?thesis
    proof (cases m)
      case True
      with Inr Cons.prems show ?thesis by simp
    next
      case False
      with Inr Cons.prems have rec: "project_index c n ps (k + 1) = Inr i" by simp
      from Cons.IH [OF rec] Cons.prems
      have ih: "k + 1 \<le> i" "nat (i - (k + 1)) < length ps"
        "is_project c n (ps ! nat (i - (k + 1))) = Inr True"
        "\<forall>j<nat (i - (k + 1)). is_project c n (ps ! j) = Inr False" by auto
      have eq: "nat (i - k) = Suc (nat (i - (k + 1)))" using ih(1) by linarith
      show ?thesis
        using ih Inr False unfolding eq
        by (auto simp: nth_Cons' less_Suc_eq_0_disj)
    qed
  qed
qed


lemma load_data_error: "load_data st = Inl e \<Longrightarrow> e = HTTPException 500 ''Failed to load data''"
  by (auto simp: load_data_def split: sum.splits)

lemma save_data_error:
  "save_data repr ps st = (Inl e, st') \<Longrightarrow> st' = st \<and> e = HTTPException 500 ''Failed to save data''"
  by (auto simp: save_data_def split: sum.splits if_splits)

lemma save_data_body_fails:
  "save_data_body repr ps st = Inl e \<Longrightarrow> ps \<noteq> [] \<Longrightarrow>
   save_data repr ps st = (Inl (HTTPException 500 ''Failed to save data''), st)"
  by (simp add: save_data_def)

lemma update_project_never_404:
  "fst (update_project repr c n d st) \<noteq> Inl (HTTPException 404 detail)"
  by (auto simp: update_project_def Let_def split: sum.splits prod.splits)

lemma delete_project_never_404:
  "fst (delete_project repr c n st) \<noteq> Inl (HTTPException 404 detail)"
  by (auto simp: delete_project_def Let_def split: sum.splits prod.splits if_splits)

lemma update_project_error_frame:
  "update_project repr c n d st = (Inl e, st') \<Longrightarrow> st' = st \<and> e = HTTPException 500 ''Failed to update project''"
  by (auto simp: update_project_def Let_def split: sum.splits prod.splits dest: save_data_error)

lemma update_project_absent:
  "load_data st = Inr projects \<Longrightarrow> project_index c n projects 0 = Inr (- 1) \<Longrightarrow>
   update_project repr c n d st = (Inl (HTTPException 500 ''Failed to update project''), st)"
  by (simp add: update_project_def updated_projects_def)

lemma remaining_projects_length:
  "remaining_projects c n ps = Inr ps' \<Longrightarrow> length ps' \<le> length ps"
  by (induction ps arbitrary: ps') (auto split: sum.splits if_splits)

lemma remaining_projects_none:
  "remaining_projects c n ps = Inr ps' \<Longrightarrow> length ps' = length ps \<Longrightarrow> ps' = ps"
  by (induction ps arbitrary: ps') (auto split: sum.splits if_splits dest: remaining_projects_length)

lemma remaining_projects_all_False:
  "\<forall>p\<in>set ps. is_project c n p = Inr False \<Longrightarrow> remaining_projects c n ps = Inr ps"
  by (induction ps) auto

lemma delete_project_absent:
  "load_data st = Inr projects \<Longrightarrow> \<forall>p\<in>set projects. is_project c n p = Inr False \<Longrightarrow>
   delete_project repr c n st = (Inl (HTTPException 500 ''Failed to delete project''), st)"
  by (simp add: delete_project_def remaining_projects_all_False)

lemma writerows_extra_key:
  "\<exists>d\<in>set ds. \<not> set (keys d) \<subseteq> set fieldnames \<Longrightarrow> writerows repr fieldnames ds out = Inl ValueError"
proof (induction ds arbitrary: out)
  case Nil
  then show ?case by simp
next
  case (Cons d ds)
  show ?case
  proof (cases "set (keys d) \<subseteq> set fieldnames")
    case True
    with Cons.prems have "\<exists>d\<in>set ds. \<not> set (keys d) \<subseteq> set fieldnames" by auto
    then have "\<And>out'. writerows repr fieldnames ds out' = Inl ValueError" by (rule Cons.IH)
    then show ?thesis by (auto simp: DictWriter_writerow_def dict_to_list_def split: sum.splits if_splits)
  next
    case False
    then have "dict_to_list fieldnames d = Inl ValueError"
      by (auto simp: dict_to_list_def list_ex_iff)
    then show ?thesis by (simp add: DictWriter_writerow_def)
  qed
qed

lemma save_data_extra_key:
  assumes "projects \<noteq> []" and "\<exists>d\<in>set projects. \<not> set (keys d) \<subseteq> set (keys (hd projects))"
  shows "save_data repr projects st = (Inl (HTTPException 500 ''Failed to save data''), st)"
proof -
  have "\<exists>e. save_data_body repr projects st = Inl e"
    using writerows_extra_key [OF assms(2), of repr]
    by (auto simp: save_data_body_def Let_def split: sum.splits)
  with assms(1) show ?thesis by (auto simp: save_data_def)
qed

lemma add_project_extra_key:
  assumes "load_data st = Inr projects" and "projects \<noteq> []"
    and "\<exists>k\<in>set (keys project_data). k \<notin> set (keys (hd projects))"
  shows "add_project repr project_data st = (Inl (HTTPException 500 ''Failed to add project''), st)"
proof -
  have "\<exists>d\<in>set (projects @ [project_data]). \<not> set (keys d) \<subseteq> set (keys (hd (projects @ [project_data])))"
    using assms(2,3) by auto
  then have "save_data repr (projects @ [project_data]) st = (Inl (HTTPException 500 ''Failed to save data''), st)"
    by (intro save_data_extra_key) auto
  with assms(1) show ?thesis by (simp add: add_project_def)
qed

lemma map_upds_self: "k \<in> set ks \<Longrightarrow> (m(ks [\<mapsto>] map f ks)) k = Some (f k)"
proof (induction ks arbitrary: m)
  case Nil
  then show ?case by simp
next
  case (Cons a ks)
  show ?case
  proof (cases "k \<in> set ks")
    case True
    then show ?thesis using Cons.IH by simp
  next
    case False
    with Cons.prems have "k = a" by simp
    with False show ?thesis by simp
  qed
qed

lemma updates_keys: "length ks = length vs \<Longrightarrow> fst ` set (AList.updates ks vs al) = set ks \<union> fst ` set al"
proof -
  assume l: "length ks = length vs"
  have "fst ` set (AList.updates ks vs al) = dom (map_of (AList.updates ks vs al))"
    by (simp add: dom_map_of_conv_image_fst)
  also have "\<dots> = set ks \<union> dom (map_of al)"
    using l by (simp add: updates_conv' dom_map_upds)
  finally show ?thesis by (simp add: dom_map_of_conv_image_fst)
qed

lemma writeheader_eq: "writeheader repr fieldnames out = Inr (out @ writerow (header_cells fieldnames))"
proof -
  let ?h = "AList.updates fieldnames (map key_val fieldnames) []"
  have k: "fst ` set ?h = set fieldnames" by (simp add: updates_keys)
  have v: "\<And>k. k \<in> set fieldnames \<Longrightarrow> map_of ?h k = Some (key_val k)"
    by (simp add: updates_conv' map_upds_self)
  have "dict_to_list fieldnames ?h = Inr (map key_val fieldnames)"
    using k v by (auto simp: dict_to_list_def list_ex_iff keys_def)
  moreover have "map (cell_text repr) (map key_val fieldnames) = header_cells fieldnames"
    by (auto simp: header_cells_def key_val_def cell_text_def split: option.splits)
  ultimately show ?thesis
    by (simp add: writeheader_def DictWriter_writerow_def)
qed

lemma dict_to_list_ok:
  "set (keys d) \<subseteq> set fieldnames \<Longrightarrow>
   DictWriter_writerow repr fieldnames d out = Inr (out @ writerow (row_cells repr fieldnames d))"
proof -
  assume "set (keys d) \<subseteq> set fieldnames"
  then have "dict_to_list fieldnames d =
      Inr (map (\<lambda>key. case map_of d key of Some v \<Rightarrow> v | None \<Rightarrow> PStr []) fieldnames)"
    by (auto simp: dict_to_list_def list_ex_iff)
  moreover have "map (cell_text repr) (map (\<lambda>key. case map_of d key of Some v \<Rightarrow> v | None \<Rightarrow> PStr []) fieldnames)
      = row_cells repr fieldnames d"
    by (auto simp: row_cells_def cell_text_def split: option.splits)
  ultimately show ?thesis by (simp add: DictWriter_writerow_def)
qed

lemma writerows_ok:
  "\<forall>d\<in>set ds. set (keys d) \<subseteq> set fieldnames \<Longrightarrow>
   writerows repr fieldnames ds out = Inr (out @ concat (map (\<lambda>d. writerow (row_cells repr fieldnames d)) ds))"
  by (induction ds arbitrary: out) (simp_all add: dict_to_list_ok)

lemma save_data_body_ok:
  assumes "\<forall>d\<in>set projects. set (keys d) \<subseteq> set (keys (hd projects))"
  shows "save_data_body repr projects st =
         (case get_blob_client st of
            Inl e \<Rightarrow> Inl e
          | Inr _ \<Rightarrow> (case utf8_encode (csv_text repr projects) of
                        Inl e \<Rightarrow> Inl e
                      | Inr data \<Rightarrow> upload_blob data st))"
proof -
  have t: "csv_text repr projects =
      writerow (header_cells (keys (hd projects))) @
      concat (map (\<lambda>d. writerow (row_cells repr (keys (hd projects)) d)) projects)"
    by (simp add: csv_text_def Let_def comp_def)
  show ?thesis
    using assms unfolding t save_data_body_def Let_def
    by (simp add: writeheader_eq writerows_ok)
qed

lemma updated_projects_frame:
  assumes "updated_projects c n patch projects = Inr projects'"
  shows "\<exists>i<length projects.
           is_project c n (projects ! i) = Inr True \<and>
           (\<forall>j<i. is_project c n (projects ! j) = Inr False) \<and>
           projects' = projects[i := update_fields (projects ! i) patch]"
proof -
  from assms obtain i where i: "project_index c n projects 0 = Inr i" "i \<noteq> - 1"
    and p: "projects' = projects[nat i := update_fields (projects ! nat i) patch]"
    by (auto simp: updated_projects_def split: sum.splits if_splits)
  from project_index_found [OF i(1) i(2)] show ?thesis using p by auto
qed

lemma example_csv_text:
  "utf8_encode (csv_text plain_repr example_projects) = Inr (ascii_bytes example_csv)"
  by (simp add: csv_text_def header_cells_def row_cells_def example_projects_def keys_def
      writerow_def join_append_def special_def cell_text_def lineterminator_def LF_def CR_def
      delimiter_def quotechar_def ascii_def ascii_bytes_def example_csv_def CRLF_def
      encode_char_def)

lemma dup_decode:
  "utf8_decode (ascii_bytes dup_csv) = Inr (ascii dup_csv)"
  by (simp add: utf8_decode.simps ascii_bytes_def ascii_def CRLF_def dup_csv_def)

lemma dup_rows:
  "reader_rows parse_reset (readlines (ascii dup_csv))
   = Inr [[ascii ''Category'', ascii ''Project Name'', ascii ''Due''],
          [ascii ''R'', ascii ''Oak'', []],
          [ascii ''P'', ascii ''Elm'', ascii ''x''],
          [ascii ''R'', ascii ''Oak'', ascii ''y'']]"
  by (simp add: ascii_def CRLF_def dup_csv_def reader_defs)

lemma load_dup: "load_data dup_store = Inr dup_projects"
proof -
  have "load_data_body dup_store =
          Inr (map clean_project (DictReader
            [[ascii ''Category'', ascii ''Project Name'', ascii ''Due''],
             [ascii ''R'', ascii ''Oak'', []],
             [ascii ''P'', ascii ''Elm'', ascii ''x''],
             [ascii ''R'', ascii ''Oak'', ascii ''y'']]))"
    by (simp add: load_data_body_def dup_store_def get_blob_client_def download_blob_def
        dup_decode dup_rows)
  then show ?thesis
    by (simp add: load_data_def DictReader_def make_dict_def AList.updates_def clean_project_def
        truthy_def dup_projects_def ascii_def)
qed

lemma dup_updated_projects:
  "updated_projects (ascii ''R'') (ascii ''Oak'') dup_patch dup_projects = Inr dup_updated"
  by (simp add: updated_projects_def dup_projects_def dup_updated_def dup_patch_def
      is_project_def getitem_def update_fields_def keys_def ascii_def)

lemma dup_updated_csv_text:
  "utf8_encode (csv_text plain_repr dup_updated) = Inr (ascii_bytes dup_updated_csv)"
  by (simp add: csv_text_def header_cells_def row_cells_def keys_def dup_updated_def
      writerow_def join_append_def special_def cell_text_def lineterminator_def LF_def CR_def
      delimiter_def quotechar_def ascii_def ascii_bytes_def dup_updated_csv_def CRLF_def
      encode_char_def)

lemma dup_save:
  "save_data plain_repr dup_updated dup_store
   = (Inr (), dup_store\<lparr>blob := Some (ascii_bytes dup_updated_csv)\<rparr>)"
proof -
  have k: "\<forall>d\<in>set dup_updated. set (keys d) \<subseteq> set (keys (hd dup_updated))"
    by (simp add: dup_updated_def keys_def)
  have "connect_ok dup_store \<and> upload_ok dup_store" by (simp add: dup_store_def)
  then have "save_data_body plain_repr dup_updated dup_store
       = Inr (dup_store\<lparr>blob := Some (ascii_bytes dup_updated_csv)\<rparr>)"
    by (simp add: save_data_body_ok [OF k] dup_updated_csv_text get_blob_client_def upload_blob_def)
  then show ?thesis by (simp add: save_data_def dup_updated_def)
qed

lemma dup_update:
  "update_project plain_repr (ascii ''R'') (ascii ''Oak'') dup_patch dup_store
   = (Inr ''Project updated successfully'', dup_store\<lparr>blob := Some (ascii_bytes dup_updated_csv)\<rparr>)"
  unfolding update_project_def load_dup using dup_updated_projects dup_save by simp

lemma dup_facts:
  "length dup_projects = 3"
  "is_project (ascii ''R'') (ascii ''Oak'') (dup_projects ! 0) = Inr True"
  "is_project (ascii ''R'') (ascii ''Oak'') (dup_projects ! 2) = Inr True"
  "dup_updated ! 0 \<noteq> dup_projects ! 0"
  by (simp_all add: dup_projects_def dup_updated_def is_project_def getitem_def ascii_def)

lemma surplus_decode:
  "utf8_decode (ascii_bytes surplus_csv) = Inr (ascii surplus_csv)"
  by (simp add: utf8_decode.simps ascii_bytes_def ascii_def CRLF_def surplus_csv_def)

lemma surplus_rows:
  "reader_rows parse_reset (readlines (ascii surplus_csv)) = Inr [[ascii ''A''], [ascii ''1'', []]]"
  by (simp add: ascii_def CRLF_def surplus_csv_def reader_defs)

lemma load_surplus: "load_data surplus_store = Inr surplus_projects"
proof -
  have "load_data_body surplus_store =
          Inr (map clean_project (DictReader [[ascii ''A''], [ascii ''1'', []]]))"
    by (simp add: load_data_body_def surplus_store_def get_blob_client_def download_blob_def
        surplus_decode surplus_rows)
  then show ?thesis
    by (simp add: load_data_def DictReader_def make_dict_def AList.updates_def clean_project_def
        truthy_def surplus_projects_def ascii_def)
qed


lemma update_at_key:
  "k \<notin> fst ` set xs \<Longrightarrow> AList.update k v (xs @ (k, w) # ys) = xs @ (k, v) # ys"
  by (induction xs) auto

lemma clean_fold:
  "distinct (map fst (ys @ xs)) \<Longrightarrow>
   fold (\<lambda>(key, value) d. if \<not> truthy value then AList.update key PNone d else d) xs
     (map (\<lambda>(k, v). (k, clean_value v)) ys @ xs)
   = map (\<lambda>(k, v). (k, clean_value v)) (ys @ xs)"
proof (induction xs arbitrary: ys)
  case Nil
  then show ?case by simp
next
  case (Cons x xs)
  obtain k v where x: "x = (k, v)" by (cases x)
  let ?g = "\<lambda>(k, v). (k, clean_value v)"
  from Cons.prems x have nk: "k \<notin> fst ` set (map ?g ys)" by force
  have step: "(if \<not> truthy v then AList.update k PNone (map ?g ys @ (k, v) # xs)
               else map ?g ys @ (k, v) # xs) = map ?g (ys @ [(k, v)]) @ xs"
    using update_at_key [OF nk, of PNone v xs] by (simp add: clean_value_def)
  from Cons.prems x have d: "distinct (map fst ((ys @ [(k, v)]) @ xs))" by simp
  show ?case
    using Cons.IH [OF d] step unfolding x by simp
qed

lemma clean_project_map:
  "distinct (map fst d) \<Longrightarrow> clean_project d = map (\<lambda>(k, v). (k, clean_value v)) d"
  using clean_fold [of "[]" d] by (simp add: clean_project_def)

lemma distinct_fold_update:
  "distinct (map fst d) \<Longrightarrow> distinct (map fst (fold (\<lambda>key. AList.update (f key) v) ks d))"
  by (induction ks arbitrary: d) (simp_all add: distinct_update)

lemma distinct_make_dict: "distinct (map fst (make_dict fieldnames row))"
  by (simp add: make_dict_def Let_def distinct_update distinct_updates distinct_fold_update)

lemma load_data_rows:
  "load_data st = Inr projects \<Longrightarrow>
   \<exists>data csv_data rows. connect_ok st \<and> download_ok st \<and> blob st = Some data \<and>
     utf8_decode data = Inr csv_data \<and>
     reader_rows parse_reset (readlines csv_data) = Inr rows \<and>
     projects = map clean_project (DictReader rows)"
  by (auto simp: load_data_def load_data_body_def get_blob_client_def download_blob_def
      split: sum.splits if_splits option.splits)

lemma DictReader_distinct: "p \<in> set (DictReader rows) \<Longrightarrow> distinct (map fst p)"
  by (auto simp: DictReader_def distinct_make_dict split: list.splits)

lemma update_values: "snd ` set (AList.update k v al) \<subseteq> insert v (snd ` set al)"
  by (induction al) auto

lemma updates_values: "snd ` set (AList.updates ks vs al) \<subseteq> set vs \<union> snd ` set al"
proof (induction ks arbitrary: vs al)
  case Nil
  then show ?case by simp
next
  case (Cons k ks)
  show ?case
  proof (cases vs)
    case Nil
    then show ?thesis by simp
  next
    case (Cons v vs')
    have "snd ` set (AList.updates ks vs' (AList.update k v al))
        \<subseteq> set vs' \<union> snd ` set (AList.update k v al)" by (rule Cons.IH)
    with update_values [of k v al] show ?thesis unfolding Cons by (simp add: subset_iff) blast
  qed
qed

lemma fold_update_values:
  "snd ` set (fold (\<lambda>key. AList.update (f key) v) ks al) \<subseteq> insert v (snd ` set al)"
proof (induction ks arbitrary: al)
  case Nil
  then show ?case by auto
next
  case (Cons k ks)
  have "snd ` set (fold (\<lambda>key. AList.update (f key) v) ks (AList.update (f k) v al))
      \<subseteq> insert v (snd ` set (AList.update (f k) v al))" by (rule Cons.IH)
  with update_values [of "f k" v al] show ?case by (simp add: subset_iff) blast
qed

lemma make_dict_values:
  assumes "(k, v) \<in> set (make_dict fieldnames row)"
  shows "reader_value v"
proof -
  let ?d = "AList.updates (map Some fieldnames) (map PStr row) []"
  have d: "snd ` set ?d \<subseteq> PStr ` set row"
    using updates_values [of "map Some fieldnames" "map PStr row" "[]"] by auto
  from assms have v: "v \<in> snd ` set (make_dict fieldnames row)" by force
  consider (long) "length fieldnames < length row"
    | (short) "length row < length fieldnames" | (eq) "length fieldnames = length row" by linarith
  then show ?thesis
  proof cases
    case long
    then have "make_dict fieldnames row
        = AList.update None (PList (drop (length fieldnames) row)) ?d"
      by (simp add: make_dict_def Let_def)
    with v update_values [of None "PList (drop (length fieldnames) row)" ?d] d
    have "v = PList (drop (length fieldnames) row) \<or> v \<in> PStr ` set row" by auto
    with long show ?thesis by (auto simp: reader_value_def)
  next
    case short
    then have "make_dict fieldnames row
        = fold (\<lambda>key. AList.update (Some key) PNone) (drop (length row) fieldnames) ?d"
      by (simp add: make_dict_def Let_def)
    with v fold_update_values [of Some PNone "drop (length row) fieldnames" ?d] d
    have "v = PNone \<or> v \<in> PStr ` set row" by auto
    then show ?thesis by (auto simp: reader_value_def)
  next
    case eq
    then have "make_dict fieldnames row = ?d" by (simp add: make_dict_def Let_def)
    with v d show ?thesis by (auto simp: reader_value_def)
  qed
qed

lemma clean_value_reader:
  "reader_value v \<Longrightarrow> clean_value v = (if v = PStr [] then PNone else v)"
  by (cases v) (auto simp: reader_value_def clean_value_def truthy_def)

lemma clean_project_reader:
  assumes "p \<in> set (DictReader rows)"
  shows "clean_project p = map (\<lambda>(k, v). (k, if v = PStr [] then PNone else v)) p"
proof -
  from assms obtain fieldnames row where p: "p = make_dict fieldnames row"
    by (auto simp: DictReader_def split: list.splits)
  have "clean_project p = map (\<lambda>(k, v). (k, clean_value v)) p"
    using DictReader_distinct [OF assms] by (rule clean_project_map)
  also have "\<dots> = map (\<lambda>(k, v). (k, if v = PStr [] then PNone else v)) p"
    using make_dict_values unfolding p by (intro map_cong) (auto simp: clean_value_reader)
  finally show ?thesis .
qed


section \<open>The UTF-8 codec is its own inverse\<close>

lemma unat_byte: "n < 256 \<Longrightarrow> unat (of_nat n :: byte) = n"
  by (simp add: unat_of_nat)

lemma split2: "(c::nat) = c div 64 * 64 + c mod 64" by simp

lemma split3: "(c::nat) = c div 4096 * 4096 + c div 64 mod 64 * 64 + c mod 64"
proof -
  have "c div 64 = c div 64 div 64 * 64 + c div 64 mod 64" by simp
  moreover have "c div 64 div 64 = c div 4096" by (simp add: div_mult2_eq)
  ultimately have "c div 64 = c div 4096 * 64 + c div 64 mod 64" by simp
  moreover have "c = c div 64 * 64 + c mod 64" by simp
  ultimately show ?thesis by linarith
qed

lemma split4:
  "(c::nat) = c div 262144 * 262144 + c div 4096 mod 64 * 4096 + c div 64 mod 64 * 64 + c mod 64"
proof -
  have "c div 4096 = c div 4096 div 64 * 64 + c div 4096 mod 64" by simp
  moreover have "c div 4096 div 64 = c div 262144" by (simp add: div_mult2_eq)
  ultimately have "c div 4096 = c div 262144 * 64 + c div 4096 mod 64" by simp
  with split3 [of c] show ?thesis by linarith
qed

lemma dec2:
  assumes "unat b0 = 0xC0 + q" "unat b1 = 0x80 + m" "2 \<le> q" "q < 32" "m < 64"
  shows "decode_char (b0 # b1 # rest) = Some (q * 64 + m, rest)"
  using assms by (simp add: is_cont_def cont_bits_def Let_def)

lemma dec3:
  assumes "unat b0 = 0xE0 + a" "unat b1 = 0x80 + b" "unat b2 = 0x80 + m"
    "a < 16" "b < 64" "m < 64" "0x800 \<le> a * 4096 + b * 64 + m"
    "\<not> (0xD800 \<le> a * 4096 + b * 64 + m \<and> a * 4096 + b * 64 + m < 0xE000)"
  shows "decode_char (b0 # b1 # b2 # rest) = Some (a * 4096 + b * 64 + m, rest)"
  using assms by (simp add: is_cont_def cont_bits_def Let_def)

lemma dec4:
  assumes "unat b0 = 0xF0 + a" "unat b1 = 0x80 + b" "unat b2 = 0x80 + d" "unat b3 = 0x80 + m"
    "a < 5" "b < 64" "d < 64" "m < 64" "0x10000 \<le> a * 262144 + b * 4096 + d * 64 + m"
    "a * 262144 + b * 4096 + d * 64 + m < 0x110000"
  shows "decode_char (b0 # b1 # b2 # b3 # rest) = Some (a * 262144 + b * 4096 + d * 64 + m, rest)"
  using assms by (simp add: is_cont_def cont_bits_def Let_def)

lemma unat_byte_add: "k + n < 256 \<Longrightarrow> unat (of_nat k + of_nat n :: byte) = k + n"
  using unat_byte [of "k + n"] by simp

lemma div_lower: "(k::nat) * n \<le> c \<Longrightarrow> 0 < n \<Longrightarrow> k \<le> c div n"
  by (simp add: less_eq_div_iff_mult_less_eq)

lemma decode_encode_char:
  assumes "encode_char c = Inr bs"
  shows "decode_char (bs @ rest) = Some (c, rest)"
proof -
  consider (a) "c < 0x80" | (b) "0x80 \<le> c" "c < 0x800"
    | (c) "0x800 \<le> c" "c < 0x10000" "\<not> (0xD800 \<le> c \<and> c < 0xE000)"
    | (d) "0x10000 \<le> c" "c < 0x110000"
    | (e) "0xD800 \<le> c \<and> c < 0xE000" | (f) "0x110000 \<le> c"
    by linarith
  then show ?thesis
  proof cases
    case a
    with assms have "bs = [of_nat c]" by (simp add: encode_char_def)
    with a show ?thesis by (simp add: unat_byte)
  next
    case b
    define q where "q = c div 64"
    define m where "m = c mod 64"
    from b assms have bs: "bs = [of_nat 0xC0 + of_nat q, of_nat 0x80 + of_nat m]"
      by (simp add: encode_char_def q_def m_def)
    have m: "m < 64" by (simp add: m_def)
    have q: "q < 32" unfolding q_def using b(2) by (intro less_mult_imp_div_less) simp
    have q2: "2 \<le> q" unfolding q_def using b(1) by (intro div_lower) simp_all
    have c: "c = q * 64 + m" unfolding q_def m_def by simp
    have "decode_char ((of_nat 0xC0 + of_nat q) # (of_nat 0x80 + of_nat m) # rest) = Some (q * 64 + m, rest)"
      using q q2 m by (intro dec2 unat_byte_add) simp_all
    then show ?thesis by (simp add: bs c)
  next
    case c
    define a where "a = c div 4096"
    define b where "b = c div 64 mod 64"
    define m where "m = c mod 64"
    from c assms have bs: "bs = [of_nat 0xE0 + of_nat a, of_nat 0x80 + of_nat b, of_nat 0x80 + of_nat m]"
      by (auto simp: encode_char_def a_def b_def m_def)
    have m: "m < 64" "b < 64" by (simp_all add: m_def b_def)
    have a: "a < 16" unfolding a_def using c(2) by (intro less_mult_imp_div_less) simp
    have ceq: "c = a * 4096 + b * 64 + m" unfolding a_def b_def m_def by (rule split3)
    have "decode_char ((of_nat 0xE0 + of_nat a) # (of_nat 0x80 + of_nat b) # (of_nat 0x80 + of_nat m) # rest)
        = Some (a * 4096 + b * 64 + m, rest)"
      using a m c unfolding ceq by (intro dec3 unat_byte_add) simp_all
    then show ?thesis by (simp add: bs ceq)
  next
    case d
    define a where "a = c div 262144"
    define b where "b = c div 4096 mod 64"
    define e where "e = c div 64 mod 64"
    define m where "m = c mod 64"
    from d assms have bs: "bs = [of_nat 0xF0 + of_nat a, of_nat 0x80 + of_nat b, of_nat 0x80 + of_nat e,
        of_nat 0x80 + of_nat m]"
      by (auto simp: encode_char_def a_def b_def e_def m_def)
    have m: "m < 64" "b < 64" "e < 64" by (simp_all add: m_def b_def e_def)
    have a: "a < 5" unfolding a_def using d(2) by (intro less_mult_imp_div_less) simp
    have ceq: "c = a * 262144 + b * 4096 + e * 64 + m" unfolding a_def b_def e_def m_def by (rule split4)
    have "decode_char ((of_nat 0xF0 + of_nat a) # (of_nat 0x80 + of_nat b) # (of_nat 0x80 + of_nat e)
          # (of_nat 0x80 + of_nat m) # rest)
        = Some (a * 262144 + b * 4096 + e * 64 + m, rest)"
      using a m d unfolding ceq by (intro dec4 unat_byte_add) simp_all
    then show ?thesis by (simp add: bs ceq)
  next
    case e
    with assms show ?thesis by (simp add: encode_char_def)
  next
    case f
    with assms show ?thesis by (simp add: encode_char_def)
  qed
qed

lemma encode_char_valid: "valid_char c \<Longrightarrow> \<exists>bs. encode_char c = Inr bs \<and> bs \<noteq> []"
  by (auto simp: encode_char_def valid_char_def)

lemma utf8_roundtrip:
  "\<forall>c\<in>set s. valid_char c \<Longrightarrow> \<exists>bs. utf8_encode s = Inr bs \<and> utf8_decode bs = Inr s"
proof (induction s)
  case Nil
  then show ?case by (simp add: utf8_decode.simps)
next
  case (Cons c s)
  then obtain bs where bs: "utf8_encode s = Inr bs" "utf8_decode bs = Inr s" by auto
  from Cons.prems obtain cb where cb: "encode_char c = Inr cb" "cb \<noteq> []"
    using encode_char_valid by auto
  have "utf8_decode (cb @ bs) = Inr (c # s)"
    using decode_encode_char [OF cb(1), of bs] cb(2) bs(2)
    by (subst utf8_decode.simps) simp
  with bs cb show ?case by simp
qed

lemma cont_bits_le: "is_cont b \<Longrightarrow> cont_bits b \<le> 63"
  unfolding is_cont_def cont_bits_def by linarith

lemma decode_char_valid:
  assumes "decode_char bs = Some (c, rest)"
  shows "valid_char c"
proof (cases bs)
  case Nil
  with assms show ?thesis by simp
next
  case (Cons b0 bs')
  consider (a) "unat b0 < 0x80" | (b) "0xC2 \<le> unat b0" "unat b0 < 0xE0"
    | (c) "0xE0 \<le> unat b0" "unat b0 < 0xF0" | (d) "0xF0 \<le> unat b0" "unat b0 < 0xF5"
    | (e) "0x80 \<le> unat b0" "unat b0 < 0xC2" | (f) "0xF5 \<le> unat b0"
    by linarith
  then show ?thesis
  proof cases
    case a
    with assms Cons show ?thesis by (simp add: valid_char_def)
  next
    case b
    with assms Cons obtain b1 where "is_cont b1" "c = (unat b0 - 0xC0) * 0x40 + cont_bits b1"
      by (auto simp: Let_def split: list.splits if_splits)
    moreover define x where "x = unat b0 - 0xC0"
    moreover from b have "x \<le> 31" by (simp add: x_def)
    moreover have "is_cont b1 \<Longrightarrow> cont_bits b1 \<le> 63" by (rule cont_bits_le)
    ultimately have "c < 0xD800" by simp
    then show ?thesis by (simp add: valid_char_def)
  next
    case c
    with assms Cons obtain b1 b2 where o: "is_cont b1" "is_cont b2"
      "c = (unat b0 - 0xE0) * 0x1000 + cont_bits b1 * 0x40 + cont_bits b2"
      "\<not> (0xD800 \<le> c \<and> c < 0xE000)"
      by (auto simp: Let_def split: list.splits if_splits)
    define x where "x = unat b0 - 0xE0"
    from c have x: "x \<le> 15" by (simp add: x_def)
    from o have cb: "cont_bits b1 \<le> 63" "cont_bits b2 \<le> 63" by (simp_all add: cont_bits_le)
    from o(3) have ceq: "c = x * 0x1000 + cont_bits b1 * 0x40 + cont_bits b2" by (simp add: x_def)
    have "c < 0x110000" unfolding ceq using x cb by linarith
    with o(4) show ?thesis by (auto simp: valid_char_def)
  next
    case d
    with assms Cons have "0x10000 \<le> c \<and> c < 0x110000"
      by (auto simp: Let_def split: list.splits if_splits)
    then show ?thesis by (simp add: valid_char_def)
  next
    case e
    with assms Cons show ?thesis by simp
  next
    case f
    with assms Cons show ?thesis by simp
  qed
qed

lemma utf8_decode_valid: "utf8_decode bs = Inr s \<Longrightarrow> \<forall>c\<in>set s. valid_char c"
proof (induction bs arbitrary: s rule: utf8_decode.induct)
  case (1 bs)
  show ?case
  proof (cases "bs = []")
    case True
    with "1.prems" show ?thesis by (simp add: utf8_decode.simps)
  next
    case False
    with "1.prems" obtain c rest cs where
      d: "decode_char bs = Some (c, rest)" and r: "utf8_decode rest = Inr cs" and s: "s = c # cs"
      by (subst (asm) utf8_decode.simps) (auto split: option.splits sum.splits)
    from "1.IH" [OF False d refl r] decode_char_valid [OF d] s show ?thesis by simp
  qed
qed

section \<open>The reader reads back what the writer wrote\<close>

lemmas ppc_defs = parse_process_char_def start_field_def is_eol_def parse_add_char_def
  parse_save_field_def set_state_def LF_def CR_def delimiter_def quotechar_def

lemma readlines_Nil_iff: "readlines cs = [] \<longleftrightarrow> cs = []"
  by (cases cs) (auto split: list.splits)

lemma read_text_step:
  assumes "c \<noteq> LF" "cs \<noteq> []"
  shows "read_text r (c # cs) =
     (case parse_process_char r (Some c) of Inl e \<Rightarrow> Inl e | Inr r' \<Rightarrow> read_text r' cs)"
proof -
  from assms(2) obtain l ls where l: "readlines cs = l # ls"
    by (cases "readlines cs") (simp_all add: readlines_Nil_iff)
  with assms(1) have "readlines (c # cs) = (c # l) # ls" by simp
  then show ?thesis
    by (simp add: read_text_def l parse_line_def split: sum.splits)
qed

lemma read_text_LF_quoted:
  assumes "state r = IN_QUOTED_FIELD" "length (field r) < field_limit"
  shows "read_text r (LF # cs) = read_text (r\<lparr>field := field r @ [LF]\<rparr>) cs"
  using assms
  by (simp add: read_text_def parse_line_def parse_process_char_def parse_add_char_def
      quotechar_def LF_def)

lemma read_text_LF_eat:
  assumes "state r = EAT_CRNL"
  shows "read_text r (LF # cs) =
     (case read_text parse_reset cs of Inl e \<Rightarrow> Inl e | Inr rows \<Rightarrow> Inr (rfields r # rows))"
  using assms
  by (simp add: read_text_def parse_line_def parse_process_char_def split: sum.splits)

lemma read_text_Nil: "read_text parse_reset [] = Inr []"
  by (simp add: read_text_def parse_reset_def)

lemma quoted_body:
  assumes "state r = IN_QUOTED_FIELD" "length (field r) + length fld \<le> field_limit" "rest \<noteq> []"
  shows "read_text r (escape_quotes fld @ rest) = read_text (r\<lparr>field := field r @ fld\<rparr>) rest"
  using assms
proof (induction fld arbitrary: r)
  case Nil
  then show ?case by (simp add: escape_quotes_def)
next
  case (Cons c fld)
  let ?r' = "r\<lparr>field := field r @ [c]\<rparr>"
  have r': "state ?r' = IN_QUOTED_FIELD" "length (field ?r') + length fld \<le> field_limit"
    using Cons.prems by simp_all
  have ih: "read_text ?r' (escape_quotes fld @ rest) = read_text (r\<lparr>field := field r @ c # fld\<rparr>) rest"
    using Cons.IH [OF r' Cons.prems(3)] by simp
  have lt: "length (field r) < field_limit" using Cons.prems(2) by simp
  have ne: "escape_quotes fld @ rest \<noteq> []" using Cons.prems(3) by simp
  consider (q) "c = quotechar" | (lf) "c = LF" | (o) "c \<noteq> quotechar" "c \<noteq> LF" by blast
  then show ?case
  proof cases
    case q
    have e: "escape_quotes (c # fld) @ rest = quotechar # quotechar # (escape_quotes fld @ rest)"
      by (simp add: escape_quotes_def q)
    have 1: "parse_process_char r (Some quotechar) = Inr (r\<lparr>state := QUOTE_IN_QUOTED_FIELD\<rparr>)"
      using Cons.prems(1) by (simp add: parse_process_char_def)
    have 2: "parse_process_char (r\<lparr>state := QUOTE_IN_QUOTED_FIELD\<rparr>) (Some quotechar) = Inr ?r'"
      using Cons.prems(1) lt q by (simp add: parse_process_char_def set_state_def parse_add_char_def)
    have qlf: "quotechar \<noteq> LF" by (simp add: quotechar_def LF_def)
    have "read_text r (escape_quotes (c # fld) @ rest) = read_text ?r' (escape_quotes fld @ rest)"
      unfolding e using ne
      by (simp add: read_text_step [OF qlf] 1 2)
    with ih show ?thesis by simp
  next
    case lf
    have e: "escape_quotes (c # fld) @ rest = LF # (escape_quotes fld @ rest)"
      by (simp add: escape_quotes_def lf LF_def quotechar_def)
    show ?thesis unfolding e using read_text_LF_quoted [OF Cons.prems(1) lt] ih lf by simp
  next
    case o
    have e: "escape_quotes (c # fld) @ rest = c # (escape_quotes fld @ rest)"
      using o by (simp add: escape_quotes_def)
    have 1: "parse_process_char r (Some c) = Inr ?r'"
      using Cons.prems(1) lt o by (simp add: parse_process_char_def parse_add_char_def)
    show ?thesis unfolding e using ne o ih by (simp add: read_text_step 1)
  qed
qed

lemma unquoted_body:
  assumes "state r = IN_FIELD" "\<not> list_ex special fld"
    "length (field r) + length fld \<le> field_limit" "rest \<noteq> []"
  shows "read_text r (fld @ rest) = read_text (r\<lparr>field := field r @ fld\<rparr>) rest"
  using assms
proof (induction fld arbitrary: r)
  case Nil
  then show ?case by simp
next
  case (Cons c fld)
  let ?r' = "r\<lparr>field := field r @ [c]\<rparr>"
  from Cons.prems(2) have c: "c \<noteq> LF" "c \<noteq> CR" "c \<noteq> delimiter" and f: "\<not> list_ex special fld"
    by (auto simp: list_ex_iff special_def lineterminator_def)
  have 1: "parse_process_char r (Some c) = Inr ?r'"
    using Cons.prems(1,3) c
    by (simp add: parse_process_char_def parse_add_char_def is_eol_def)
  have "read_text ?r' (fld @ rest) = read_text (r\<lparr>field := field r @ c # fld\<rparr>) rest"
    using Cons.IH [of ?r'] Cons.prems f by simp
  then show ?case using c Cons.prems(4) by (simp add: read_text_step 1)
qed

lemma char_facts:
  "quotechar \<noteq> LF" "quotechar \<noteq> CR" "quotechar \<noteq> delimiter" "delimiter \<noteq> LF"
  "delimiter \<noteq> CR" "CR \<noteq> LF"
  by (simp_all add: quotechar_def LF_def CR_def delimiter_def)

lemma open_quote:
  assumes "state r = START_RECORD \<or> state r = START_FIELD" "rest \<noteq> []"
  shows "read_text r (quotechar # rest) = read_text (r\<lparr>state := IN_QUOTED_FIELD\<rparr>) rest"
proof -
  have "parse_process_char r (Some quotechar) = Inr (r\<lparr>state := IN_QUOTED_FIELD\<rparr>)"
    using assms(1) char_facts by (auto simp: parse_process_char_def start_field_def is_eol_def)
  then show ?thesis using assms(2) by (simp add: read_text_step [OF char_facts(1)])
qed

lemma close_quote:
  assumes "state r = IN_QUOTED_FIELD" "rest \<noteq> []"
  shows "read_text r (quotechar # rest) = read_text (r\<lparr>state := QUOTE_IN_QUOTED_FIELD\<rparr>) rest"
proof -
  have "parse_process_char r (Some quotechar) = Inr (r\<lparr>state := QUOTE_IN_QUOTED_FIELD\<rparr>)"
    using assms(1) by (simp add: parse_process_char_def)
  then show ?thesis using assms(2) by (simp add: read_text_step [OF char_facts(1)])
qed

lemma quoted_field:
  assumes "state r = START_RECORD \<or> state r = START_FIELD" "field r = []"
    "length fld \<le> field_limit" "rest \<noteq> []"
  shows "read_text r (quotechar # escape_quotes fld @ quotechar # rest)
         = read_text (r\<lparr>state := QUOTE_IN_QUOTED_FIELD, field := fld\<rparr>) rest"
proof -
  let ?r1 = "r\<lparr>state := IN_QUOTED_FIELD\<rparr>"
  have "read_text r (quotechar # escape_quotes fld @ quotechar # rest)
      = read_text ?r1 (escape_quotes fld @ quotechar # rest)"
    using open_quote [OF assms(1)] by simp
  also have "\<dots> = read_text (?r1\<lparr>field := field ?r1 @ fld\<rparr>) (quotechar # rest)"
    using assms(2,3) by (intro quoted_body) simp_all
  also have "\<dots> = read_text (?r1\<lparr>field := field ?r1 @ fld\<rparr>\<lparr>state := QUOTE_IN_QUOTED_FIELD\<rparr>) rest"
    using assms(4) by (intro close_quote) simp_all
  finally show ?thesis using assms(2) by (cases r) simp
qed

lemma unquoted_field:
  assumes "state r = START_RECORD \<or> state r = START_FIELD" "field r = []"
    "\<not> list_ex special fld" "fld \<noteq> []" "length fld \<le> field_limit" "rest \<noteq> []"
  shows "read_text r (fld @ rest) = read_text (r\<lparr>state := IN_FIELD, field := fld\<rparr>) rest"
proof -
  from assms(4) obtain c cs where fld: "fld = c # cs" by (cases fld) auto
  from assms(3) fld have c: "c \<noteq> LF" "c \<noteq> CR" "c \<noteq> delimiter" "c \<noteq> quotechar"
    and cs: "\<not> list_ex special cs"
    by (auto simp: list_ex_iff special_def lineterminator_def)
  let ?r1 = "r\<lparr>state := IN_FIELD, field := [c]\<rparr>"
  have lim: "0 < field_limit" by (simp add: field_limit_def)
  have 1: "parse_process_char r (Some c) = Inr ?r1"
    using assms(1,2) c lim
    by (auto simp: parse_process_char_def start_field_def is_eol_def parse_add_char_def set_state_def)
  have "read_text r (fld @ rest) = read_text ?r1 (cs @ rest)"
    using c(1) assms(6) by (simp add: fld read_text_step 1)
  also have "\<dots> = read_text (?r1\<lparr>field := field ?r1 @ cs\<rparr>) rest"
    using cs assms(5,6) fld by (intro unquoted_body) simp_all
  finally show ?thesis by (simp add: fld)
qed

lemma encoded_field:
  assumes "state r = START_RECORD \<or> state r = START_FIELD" "field r = []"
    "length fld \<le> field_limit" "rest \<noteq> []"
  shows "read_text r (join_append fld False @ rest)
         = read_text (r\<lparr>state := after_field (state r) fld, field := fld\<rparr>) rest"
proof (cases "list_ex special fld")
  case True
  then show ?thesis
    using quoted_field [OF assms]
    by (simp add: join_append_def after_field_def escape_quotes_def)
next
  case False
  show ?thesis
  proof (cases "fld = []")
    case True
    with assms(2) have "r\<lparr>state := state r, field := []\<rparr> = r" by simp
    with True False show ?thesis by (simp add: join_append_def after_field_def)
  next
    case ne: False
    from unquoted_field [OF assms(1,2) False ne assms(3,4)] False ne
    show ?thesis by (simp add: join_append_def after_field_def)
  qed
qed

lemma delimiter_step:
  assumes "state r \<noteq> IN_QUOTED_FIELD" "state r \<noteq> EAT_CRNL" "rest \<noteq> []"
  shows "read_text r (delimiter # rest)
         = read_text (r\<lparr>state := START_FIELD, rfields := rfields r @ [field r], field := []\<rparr>) rest"
proof -
  have "parse_process_char r (Some delimiter)
      = Inr (r\<lparr>state := START_FIELD, rfields := rfields r @ [field r], field := []\<rparr>)"
    using assms(1,2) char_facts
    by (cases "state r")
      (auto simp: parse_process_char_def start_field_def is_eol_def parse_save_field_def)
  then show ?thesis using assms(3) by (simp add: read_text_step [OF char_facts(4)])
qed

lemma crlf_step:
  assumes "state r = START_FIELD \<or> state r = IN_FIELD \<or> state r = QUOTE_IN_QUOTED_FIELD"
  shows "read_text r (CR # LF # rest)
         = (case read_text parse_reset rest of
              Inl e \<Rightarrow> Inl e
            | Inr rows \<Rightarrow> Inr ((rfields r @ [field r]) # rows))"
proof -
  let ?r1 = "r\<lparr>state := EAT_CRNL, rfields := rfields r @ [field r], field := []\<rparr>"
  have "parse_process_char r (Some CR) = Inr ?r1"
    using assms char_facts
    by (auto simp: parse_process_char_def start_field_def is_eol_def parse_save_field_def)
  then have "read_text r (CR # LF # rest) = read_text ?r1 (LF # rest)"
    by (simp add: read_text_step [OF char_facts(6)])
  also have "\<dots> = (case read_text parse_reset rest of
              Inl e \<Rightarrow> Inl e
            | Inr rows \<Rightarrow> Inr (rfields ?r1 # rows))"
    by (intro read_text_LF_eat) simp
  finally show ?thesis by (simp split: sum.splits)
qed

lemma crlf_empty_row:
  "read_text parse_reset (CR # LF # rest)
   = (case read_text parse_reset rest of Inl e \<Rightarrow> Inl e | Inr rows \<Rightarrow> Inr ([] # rows))"
proof -
  let ?r1 = "parse_reset\<lparr>state := EAT_CRNL\<rparr>"
  have "parse_process_char parse_reset (Some CR) = Inr ?r1"
    by (simp add: parse_process_char_def parse_reset_def)
  then have "read_text parse_reset (CR # LF # rest) = read_text ?r1 (LF # rest)"
    by (simp add: read_text_step [OF char_facts(6)])
  also have "\<dots> = (case read_text parse_reset rest of
              Inl e \<Rightarrow> Inl e
            | Inr rows \<Rightarrow> Inr (rfields ?r1 # rows))"
    by (intro read_text_LF_eat) simp
  finally show ?thesis by (simp add: parse_reset_def split: sum.splits)
qed

lemma after_field_states:
  "s = START_FIELD \<or> fld \<noteq> [] \<or> list_ex special fld \<Longrightarrow>
   after_field s fld = START_FIELD \<or> after_field s fld = IN_FIELD
   \<or> after_field s fld = QUOTE_IN_QUOTED_FIELD"
  by (auto simp: after_field_def)

lemma after_field_not:
  "s = START_RECORD \<or> s = START_FIELD \<Longrightarrow>
   after_field s fld \<noteq> IN_QUOTED_FIELD \<and> after_field s fld \<noteq> EAT_CRNL"
  by (auto simp: after_field_def)

lemma row_fields:
  assumes "row \<noteq> []" "state r = START_RECORD \<or> state r = START_FIELD" "field r = []"
    "\<forall>fld\<in>set row. length fld \<le> field_limit"
    "\<not> (state r = START_RECORD \<and> row = [[]])"
  shows "read_text r (row_body row @ CR # LF # rest)
         = (case read_text parse_reset rest of
              Inl e \<Rightarrow> Inl e
            | Inr rows \<Rightarrow> Inr ((rfields r @ row) # rows))"
  using assms
proof (induction row arbitrary: r)
  case Nil
  then show ?case by simp
next
  case (Cons fld row)
  let ?r1 = "r\<lparr>state := after_field (state r) fld, field := fld\<rparr>"
  have len: "length fld \<le> field_limit" using Cons.prems(4) by simp
  show ?case
  proof (cases row)
    case Nil
    have b: "row_body [fld] = join_append fld False" by (simp add: row_body_def)
    from Cons.prems(5) Nil have "state r = START_FIELD \<or> fld \<noteq> [] \<or> list_ex special fld"
      using Cons.prems(2) by auto
    then have st: "state ?r1 = START_FIELD \<or> state ?r1 = IN_FIELD \<or> state ?r1 = QUOTE_IN_QUOTED_FIELD"
      using after_field_states by simp
    have "read_text r (row_body [fld] @ CR # LF # rest) = read_text ?r1 (CR # LF # rest)"
      unfolding b using Cons.prems(2,3) len by (intro encoded_field) simp_all
    also have "\<dots> = (case read_text parse_reset rest of
              Inl e \<Rightarrow> Inl e
            | Inr rows \<Rightarrow> Inr ((rfields ?r1 @ [field ?r1]) # rows))"
      using st by (rule crlf_step)
    finally show ?thesis by (simp add: Nil split: sum.splits)
  next
    case (Cons g gs)
    let ?r2 = "?r1\<lparr>state := START_FIELD, rfields := rfields ?r1 @ [field ?r1], field := []\<rparr>"
    have b: "row_body (fld # g # gs) @ CR # LF # rest
        = join_append fld False @ delimiter # (row_body (g # gs) @ CR # LF # rest)"
      by (simp add: row_body_def)
    have "read_text r (row_body (fld # g # gs) @ CR # LF # rest)
        = read_text ?r1 (delimiter # (row_body (g # gs) @ CR # LF # rest))"
      unfolding b using Cons.prems(2,3) len by (intro encoded_field) simp_all
    also have "\<dots> = read_text ?r2 (row_body (g # gs) @ CR # LF # rest)"
      using after_field_not [OF \<open>state r = START_RECORD \<or> state r = START_FIELD\<close>, of fld]
      by (intro delimiter_step) simp_all
    also have "\<dots> = (case read_text parse_reset rest of
              Inl e \<Rightarrow> Inl e
            | Inr rows \<Rightarrow> Inr ((rfields ?r2 @ (g # gs)) # rows))"
      using \<open>\<forall>fld\<in>set (fld # row). length fld \<le> field_limit\<close> Cons
      by (intro Cons.IH [unfolded Cons]) simp_all
    finally show ?thesis by (simp add: Cons split: sum.splits)
  qed
qed

lemma row_body_empty: "row_body row = [] \<Longrightarrow> row = [] \<or> row = [[]]"
proof (cases row)
  case Nil
  then show ?thesis by simp
next
  case (Cons fld gs)
  assume e: "row_body row = []"
  show ?thesis
  proof (cases gs)
    case Nil
    with e Cons have "join_append fld False = []" by (simp add: row_body_def)
    then have "fld = []" by (simp add: join_append_def split: if_splits)
    with Nil Cons show ?thesis by simp
  next
    case (Cons g gs')
    with e \<open>row = fld # gs\<close> show ?thesis by (simp add: row_body_def)
  qed
qed

lemma read_writerow:
  assumes "\<forall>fld\<in>set row. length fld \<le> field_limit"
  shows "read_text parse_reset (writerow row @ rest)
         = (case read_text parse_reset rest of
              Inl e \<Rightarrow> Inl e
            | Inr rows \<Rightarrow> Inr (row # rows))"
proof -
  have st: "state parse_reset = START_RECORD \<or> state parse_reset = START_FIELD"
    and f: "field parse_reset = []" and rf: "rfields parse_reset = []"
    by (simp_all add: parse_reset_def)
  consider (e) "row = []" | (s) "row = [[]]" | (o) "row \<noteq> []" "row \<noteq> [[]]" by blast
  then show ?thesis
  proof cases
    case e
    then show ?thesis
      by (simp add: writerow_def lineterminator_def crlf_empty_row split: sum.splits)
  next
    case s
    have w: "writerow row @ rest = quotechar # escape_quotes [] @ quotechar # CR # LF # rest"
      by (simp add: s writerow_def join_append_def lineterminator_def escape_quotes_def)
    let ?r1 = "parse_reset\<lparr>state := QUOTE_IN_QUOTED_FIELD, field := []\<rparr>"
    have "read_text parse_reset (writerow row @ rest) = read_text ?r1 (CR # LF # rest)"
      unfolding w using st f by (intro quoted_field) simp_all
    also have "\<dots> = (case read_text parse_reset rest of
              Inl e \<Rightarrow> Inl e
            | Inr rows \<Rightarrow> Inr ((rfields ?r1 @ [field ?r1]) # rows))"
      by (intro crlf_step) simp
    finally show ?thesis by (simp add: s rf split: sum.splits)
  next
    case o
    with row_body_empty have "row_body row \<noteq> []" by blast
    with o have w: "writerow row @ rest = row_body row @ CR # LF # rest"
      by (simp add: writerow_def row_body_def lineterminator_def Let_def)
    show ?thesis
      unfolding w using row_fields [OF o(1) st f assms, of rest] o(2) by (simp add: rf split: sum.splits)
  qed
qed

lemma read_written_rows:
  assumes "\<forall>row\<in>set rows. \<forall>fld\<in>set row. length fld \<le> field_limit"
  shows "read_text parse_reset (concat (map writerow rows)) = Inr rows"
  using assms
proof (induction rows)
  case Nil
  then show ?case by (simp add: read_text_Nil)
next
  case (Cons row rows)
  then have "read_text parse_reset (concat (map writerow rows)) = Inr rows" by simp
  moreover from Cons.prems have "\<forall>fld\<in>set row. length fld \<le> field_limit" by simp
  ultimately show ?case by (simp add: read_writerow split: sum.splits)
qed

section \<open>What the reader and the loader return\<close>

lemma good_text_Nil: "good_text []"
  by (simp add: good_text_def)

lemma good_reader_reset: "good_reader parse_reset"
  by (simp add: good_reader_def parse_reset_def good_text_Nil)

lemma add_char_iff:
  "parse_add_char r c = Inr r' \<longleftrightarrow>
   length (field r) < field_limit \<and> r' = r\<lparr>field := field r @ [c]\<rparr>"
  by (auto simp: parse_add_char_def)

lemma set_state_add_char_iff:
  "set_state s (parse_add_char r c) = Inr r' \<longleftrightarrow>
   length (field r) < field_limit \<and> r' = r\<lparr>field := field r @ [c], state := s\<rparr>"
  by (auto simp: parse_add_char_def set_state_def)

lemma good_start_field:
  assumes "good_reader r" "c = None \<or> valid_char (the c)" "start_field r c = Inr r'"
  shows "good_reader r'"
proof -
  consider (eol) "is_eol c" | (q) "\<not> is_eol c" "c = Some quotechar"
    | (d) "\<not> is_eol c" "c \<noteq> Some quotechar" "c = Some delimiter"
    | (o) "\<not> is_eol c" "c \<noteq> Some quotechar" "c \<noteq> Some delimiter" by blast
  then show ?thesis
  proof cases
    case eol
    with assms(3) have "r' = (parse_save_field r)\<lparr>state := (if c = None then START_RECORD else EAT_CRNL)\<rparr>"
      by (simp add: start_field_def)
    with assms(1) show ?thesis by (simp add: good_reader_def parse_save_field_def good_text_Nil)
  next
    case q
    with assms(3) have "r' = r\<lparr>state := IN_QUOTED_FIELD\<rparr>" by (simp add: start_field_def)
    with assms(1) show ?thesis by (simp add: good_reader_def)
  next
    case d
    with assms(3) have "r' = parse_save_field r" by (simp add: start_field_def)
    with assms(1) show ?thesis by (simp add: good_reader_def parse_save_field_def good_text_Nil)
  next
    case o
    with assms(3) have "set_state IN_FIELD (parse_add_char r (the c)) = Inr r'"
      by (simp add: start_field_def)
    then have r': "length (field r) < field_limit" "r' = r\<lparr>field := field r @ [the c], state := IN_FIELD\<rparr>"
      by (simp_all add: set_state_add_char_iff)
    from o(1) have "c \<noteq> None" by (auto simp: is_eol_def)
    with assms(2) have "valid_char (the c)" by simp
    with assms(1) r' show ?thesis by (simp add: good_reader_def good_text_def)
  qed
qed

lemma good_process_char:
  assumes "good_reader r" "c = None \<or> valid_char (the c)" "parse_process_char r c = Inr r'"
  shows "good_reader r'"
proof (cases "state r")
  case START_RECORD
  consider (a) "c = None" | (b) "c \<noteq> None" "c = Some LF \<or> c = Some CR"
    | (o) "c \<noteq> None" "\<not> (c = Some LF \<or> c = Some CR)" by blast
  then show ?thesis
  proof cases
    case a
    with assms START_RECORD show ?thesis by (simp add: parse_process_char_def)
  next
    case b
    with assms(3) START_RECORD have "r' = r\<lparr>state := EAT_CRNL\<rparr>"
      by (simp add: parse_process_char_def)
    with assms(1) show ?thesis by (simp add: good_reader_def)
  next
    case o
    with assms(3) START_RECORD have s: "start_field (r\<lparr>state := START_FIELD\<rparr>) c = Inr r'"
      by (simp add: parse_process_char_def)
    from assms(1) have g: "good_reader (r\<lparr>state := START_FIELD\<rparr>)" by (simp add: good_reader_def)
    from good_start_field [OF g assms(2) s] show ?thesis .
  qed
next
  case START_FIELD
  with assms(3) have s: "start_field r c = Inr r'" by (simp add: parse_process_char_def)
  from good_start_field [OF assms(1,2) s] show ?thesis .
next
  case IN_FIELD
  consider (eol) "is_eol c" | (d) "\<not> is_eol c" "c = Some delimiter"
    | (o) "\<not> is_eol c" "c \<noteq> Some delimiter" by blast
  then show ?thesis
  proof cases
    case eol
    with assms(3) IN_FIELD
    have "r' = (parse_save_field r)\<lparr>state := (if c = None then START_RECORD else EAT_CRNL)\<rparr>"
      by (simp add: parse_process_char_def)
    with assms(1) show ?thesis by (simp add: good_reader_def parse_save_field_def good_text_Nil)
  next
    case d
    with assms(3) IN_FIELD have "r' = (parse_save_field r)\<lparr>state := START_FIELD\<rparr>"
      by (simp add: parse_process_char_def)
    with assms(1) show ?thesis by (simp add: good_reader_def parse_save_field_def good_text_Nil)
  next
    case o
    with assms(3) IN_FIELD have "parse_add_char r (the c) = Inr r'"
      by (simp add: parse_process_char_def)
    then have r': "length (field r) < field_limit" "r' = r\<lparr>field := field r @ [the c]\<rparr>"
      by (simp_all add: add_char_iff)
    from o(1) have "c \<noteq> None" by (auto simp: is_eol_def)
    with assms(2) have "valid_char (the c)" by simp
    with assms(1) r' show ?thesis by (simp add: good_reader_def good_text_def)
  qed
next
  case IN_QUOTED_FIELD
  consider (a) "c = None" | (q) "c \<noteq> None" "c = Some quotechar"
    | (o) "c \<noteq> None" "c \<noteq> Some quotechar" by blast
  then show ?thesis
  proof cases
    case a
    with assms IN_QUOTED_FIELD show ?thesis by (simp add: parse_process_char_def)
  next
    case q
    with assms(3) IN_QUOTED_FIELD have "r' = r\<lparr>state := QUOTE_IN_QUOTED_FIELD\<rparr>"
      by (simp add: parse_process_char_def)
    with assms(1) show ?thesis by (simp add: good_reader_def)
  next
    case o
    with assms(3) IN_QUOTED_FIELD have "parse_add_char r (the c) = Inr r'"
      by (simp add: parse_process_char_def)
    then have r': "length (field r) < field_limit" "r' = r\<lparr>field := field r @ [the c]\<rparr>"
      by (simp_all add: add_char_iff)
    from o(1) assms(2) have "valid_char (the c)" by auto
    with assms(1) r' show ?thesis by (simp add: good_reader_def good_text_def)
  qed
next
  case QUOTE_IN_QUOTED_FIELD
  consider (q) "c = Some quotechar" | (d) "c \<noteq> Some quotechar" "c = Some delimiter"
    | (eol) "c \<noteq> Some quotechar" "c \<noteq> Some delimiter" "is_eol c"
    | (o) "c \<noteq> Some quotechar" "c \<noteq> Some delimiter" "\<not> is_eol c" by blast
  then show ?thesis
  proof cases
    case q
    with assms(3) QUOTE_IN_QUOTED_FIELD
    have "set_state IN_QUOTED_FIELD (parse_add_char r (the c)) = Inr r'"
      by (simp add: parse_process_char_def)
    then have r': "length (field r) < field_limit"
      "r' = r\<lparr>field := field r @ [the c], state := IN_QUOTED_FIELD\<rparr>"
      by (simp_all add: set_state_add_char_iff)
    from q assms(2) have "valid_char (the c)" by simp
    with assms(1) r' show ?thesis by (simp add: good_reader_def good_text_def)
  next
    case d
    with assms(3) QUOTE_IN_QUOTED_FIELD have "r' = (parse_save_field r)\<lparr>state := START_FIELD\<rparr>"
      by (simp add: parse_process_char_def)
    with assms(1) show ?thesis by (simp add: good_reader_def parse_save_field_def good_text_Nil)
  next
    case eol
    with assms(3) QUOTE_IN_QUOTED_FIELD
    have "r' = (parse_save_field r)\<lparr>state := (if c = None then START_RECORD else EAT_CRNL)\<rparr>"
      by (simp add: parse_process_char_def)
    with assms(1) show ?thesis by (simp add: good_reader_def parse_save_field_def good_text_Nil)
  next
    case o
    with assms(3) QUOTE_IN_QUOTED_FIELD
    have "set_state IN_FIELD (parse_add_char r (the c)) = Inr r'"
      by (simp add: parse_process_char_def)
    then have r': "length (field r) < field_limit"
      "r' = r\<lparr>field := field r @ [the c], state := IN_FIELD\<rparr>"
      by (simp_all add: set_state_add_char_iff)
    from o(3) have "c \<noteq> None" by (auto simp: is_eol_def)
    with assms(2) have "valid_char (the c)" by simp
    with assms(1) r' show ?thesis by (simp add: good_reader_def good_text_def)
  qed
next
  case EAT_CRNL
  consider (a) "c = Some LF \<or> c = Some CR" | (b) "\<not> (c = Some LF \<or> c = Some CR)" "c = None"
    | (o) "\<not> (c = Some LF \<or> c = Some CR)" "c \<noteq> None" by blast
  then show ?thesis
  proof cases
    case a
    with assms EAT_CRNL show ?thesis by (auto simp: parse_process_char_def)
  next
    case b
    with assms(3) EAT_CRNL have "r' = r\<lparr>state := START_RECORD\<rparr>"
      by (simp add: parse_process_char_def)
    with assms(1) show ?thesis by (simp add: good_reader_def)
  next
    case o
    with assms(3) EAT_CRNL show ?thesis by (simp add: parse_process_char_def)
  qed
qed

lemma good_parse_chars:
  "good_reader r \<Longrightarrow> list_all valid_char l \<Longrightarrow> parse_chars r l = Inr r' \<Longrightarrow> good_reader r'"
proof (induction l arbitrary: r)
  case Nil
  then show ?case by simp
next
  case (Cons c l)
  from Cons.prems(3) obtain r1 where 1: "parse_process_char r (Some c) = Inr r1"
    and 2: "parse_chars r1 l = Inr r'" by (auto split: sum.splits)
  from Cons.prems(2) have "Some c = None \<or> valid_char (the (Some c))" by simp
  from good_process_char [OF Cons.prems(1) this 1] have "good_reader r1" .
  with Cons.IH 2 Cons.prems(2) show ?case by simp
qed

lemma good_parse_line:
  assumes "good_reader r" "list_all valid_char l" "parse_line r l = Inr r'"
  shows "good_reader r'"
proof -
  from assms(3) obtain r1 where 1: "parse_chars r l = Inr r1" and 2: "parse_process_char r1 None = Inr r'"
    by (auto simp: parse_line_def split: sum.splits)
  from good_parse_chars [OF assms(1,2) 1] have "good_reader r1" .
  from good_process_char [OF this _ 2] show ?thesis by simp
qed

lemma good_reader_rows:
  "good_reader r \<Longrightarrow> list_all (list_all valid_char) ls \<Longrightarrow> reader_rows r ls = Inr rows \<Longrightarrow>
   list_all (list_all good_text) rows"
proof (induction ls arbitrary: r rows)
  case Nil
  then show ?case
    by (auto simp: good_reader_def parse_save_field_def split: if_splits)
next
  case (Cons l ls)
  from Cons.prems(3) obtain r1 where 1: "parse_line r l = Inr r1" by (auto split: sum.splits)
  from Cons.prems(2) have "list_all valid_char l" by simp
  from good_parse_line [OF Cons.prems(1) this 1] have g1: "good_reader r1" .
  show ?case
  proof (cases "state r1 = START_RECORD")
    case False
    with Cons.prems(3) 1 have "reader_rows r1 ls = Inr rows" by simp
    with Cons.IH [OF g1] Cons.prems(2) show ?thesis by simp
  next
    case True
    with Cons.prems(3) 1 obtain rows' where r: "reader_rows parse_reset ls = Inr rows'"
      and rows: "rows = rfields r1 # rows'" by (auto split: sum.splits)
    from Cons.IH [OF good_reader_reset _ r] Cons.prems(2) have "list_all (list_all good_text) rows'"
      by simp
    with g1 rows show ?thesis by (simp add: good_reader_def)
  qed
qed

lemma concat_readlines: "concat (readlines s) = s"
  by (induction s) (auto split: list.splits)

lemma readlines_valid: "list_all valid_char s \<Longrightarrow> list_all (list_all valid_char) (readlines s)"
proof -
  assume "list_all valid_char s"
  then have "list_all valid_char (concat (readlines s))" by (simp add: concat_readlines)
  then show ?thesis by (simp add: list_all_iff)
qed

lemma first_keys_append: "first_keys (xs @ ys) acc = first_keys ys (first_keys xs acc)"
  by (simp add: first_keys_def)

lemma set_first_keys: "set (first_keys ks acc) = set ks \<union> set acc"
  unfolding first_keys_def by (induction ks arbitrary: acc) auto

lemma fold_update_keys:
  "map fst (fold (case_prod AList.update) kvs al) = first_keys (map fst kvs) (map fst al)"
  unfolding first_keys_def
  by (induction kvs arbitrary: al) (simp_all add: update_keys split_beta)

lemma updates_key_order:
  "map fst (AList.updates ks vs al) = first_keys (take (length vs) ks) (map fst al)"
proof -
  have "map fst (zip ks vs) = take (length vs) ks"
    by (induction ks arbitrary: vs) (auto simp: take_Cons' split: list.splits nat.splits, case_tac vs, auto)
  then show ?thesis by (simp add: AList.updates_def fold_update_keys)
qed

lemma fold_update_const_keys:
  "map fst (fold (\<lambda>key. AList.update (f key) v) ks al) = first_keys (map f ks) (map fst al)"
  unfolding first_keys_def
  by (induction ks arbitrary: al) (simp_all add: update_keys)

lemma make_dict_keys:
  assumes "length row \<le> length fieldnames"
  shows "map fst (make_dict fieldnames row) = first_keys (map Some fieldnames) []"
proof -
  let ?d = "AList.updates (map Some fieldnames) (map PStr row) []"
  have d: "map fst ?d = first_keys (take (length row) (map Some fieldnames)) []"
    by (simp add: updates_key_order)
  show ?thesis
  proof (cases "length row < length fieldnames")
    case True
    then have "make_dict fieldnames row
        = fold (\<lambda>key. AList.update (Some key) PNone) (drop (length row) fieldnames) ?d"
      by (simp add: make_dict_def Let_def)
    then have "map fst (make_dict fieldnames row)
        = first_keys (drop (length row) (map Some fieldnames))
            (first_keys (take (length row) (map Some fieldnames)) [])"
      by (simp only: fold_update_const_keys d drop_map)
    also have "\<dots> = first_keys (take (length row) (map Some fieldnames)
                         @ drop (length row) (map Some fieldnames)) []"
      by (simp only: first_keys_append)
    finally show ?thesis by simp
  next
    case False
    with assms have e: "length row = length fieldnames" by simp
    then have "make_dict fieldnames row = ?d" by (simp add: make_dict_def Let_def)
    with d e show ?thesis by simp
  qed
qed

lemma make_dict_long:
  assumes "length fieldnames < length row"
  shows "None \<in> set (map fst (make_dict fieldnames row))"
proof -
  from assms have "make_dict fieldnames row
      = AList.update None (PList (drop (length fieldnames) row))
          (AList.updates (map Some fieldnames) (map PStr row) [])"
    by (simp add: make_dict_def Let_def)
  then show ?thesis by (simp only: update_keys) simp
qed

lemma make_dict_cells:
  assumes "length row \<le> length fieldnames" "(k, v) \<in> set (make_dict fieldnames row)"
  shows "v = PNone \<or> (\<exists>s\<in>set row. v = PStr s)"
proof -
  let ?d = "AList.updates (map Some fieldnames) (map PStr row) []"
  have d: "snd ` set ?d \<subseteq> PStr ` set row"
    using updates_values [of "map Some fieldnames" "map PStr row" "[]"] by auto
  from assms(2) have v: "v \<in> snd ` set (make_dict fieldnames row)" by force
  show ?thesis
  proof (cases "length row < length fieldnames")
    case True
    then have "make_dict fieldnames row
        = fold (\<lambda>key. AList.update (Some key) PNone) (drop (length row) fieldnames) ?d"
      by (simp add: make_dict_def Let_def)
    with v fold_update_values [of Some PNone "drop (length row) fieldnames" ?d] d
    show ?thesis by auto
  next
    case False
    with assms(1) have "make_dict fieldnames row = ?d" by (simp add: make_dict_def Let_def)
    with v d show ?thesis by auto
  qed
qed

lemma update_fresh: "k \<notin> fst ` set al \<Longrightarrow> AList.update k v al = al @ [(k, v)]"
  by (induction al) auto

lemma updates_fresh:
  "distinct (map fst al @ ks) \<Longrightarrow> length ks = length vs \<Longrightarrow>
   AList.updates ks vs al = al @ zip ks vs"
proof (induction ks arbitrary: vs al)
  case Nil
  then show ?case by simp
next
  case (Cons k ks)
  from Cons.prems(2) obtain v vs' where vs: "vs = v # vs'" by (cases vs) auto
  from Cons.prems(1) have k: "k \<notin> fst ` set al" by auto
  from Cons.prems(1) have "distinct (map fst (al @ [(k, v)]) @ ks)" by auto
  with Cons.IH [of "al @ [(k, v)]" vs'] Cons.prems(2) vs
  have "AList.updates ks vs' (al @ [(k, v)]) = (al @ [(k, v)]) @ zip ks vs'" by simp
  with k show ?case by (simp add: vs update_fresh)
qed

lemma make_dict_zip:
  assumes "distinct fieldnames" "length row = length fieldnames"
  shows "make_dict fieldnames row = zip (map Some fieldnames) (map PStr row)"
proof -
  from assms(1) have "distinct (map fst ([] :: pydict) @ map Some fieldnames)"
    by (simp add: distinct_map)
  from updates_fresh [OF this, of "map PStr row"] assms(2)
  show ?thesis by (simp add: make_dict_def Let_def)
qed

lemma row_cells_self:
  assumes "distinct (map fst p)"
  shows "row_cells repr (map fst p) p = map (\<lambda>x. cell_text repr (snd x)) p"
proof -
  have "\<And>x. x \<in> set p \<Longrightarrow> map_of p (fst x) = Some (snd x)"
    using assms by (simp add: map_of_eq_Some_iff)
  then show ?thesis by (simp add: row_cells_def)
qed

lemma cell_roundtrip: "stored_value v \<Longrightarrow> clean_value (PStr (cell_text repr v)) = v"
  by (cases v) (simp_all add: stored_value_def clean_value_def cell_text_def truthy_def)

lemma project_roundtrip:
  assumes "distinct (map fst p)" "map fst p = map Some F" "\<forall>x\<in>set p. stored_value (snd x)"
  shows "clean_project (make_dict F (row_cells repr (map Some F) p)) = p"
proof -
  let ?row = "map (\<lambda>x. cell_text repr (snd x)) p"
  have r: "row_cells repr (map Some F) p = ?row"
    using row_cells_self [OF assms(1)] by (simp add: assms(2))
  from assms(1,2) have dF: "distinct F" by (simp add: distinct_map)
  from assms(2) have "length p = length F" by (metis length_map)
  then have "make_dict F ?row = zip (map Some F) (map PStr ?row)"
    by (intro make_dict_zip [OF dF]) simp
  also have "\<dots> = zip (map fst p) (map (\<lambda>x. PStr (cell_text repr (snd x))) p)"
    by (simp add: assms(2) comp_def)
  also have "\<dots> = map (\<lambda>x. (fst x, PStr (cell_text repr (snd x)))) p"
    by (simp add: zip_map_map zip_same_conv_map)
  finally have m: "make_dict F ?row = map (\<lambda>x. (fst x, PStr (cell_text repr (snd x)))) p" .
  have "distinct (map fst (map (\<lambda>x. (fst x, PStr (cell_text repr (snd x)))) p))"
    using assms(1) by (simp add: comp_def)
  then have "clean_project (map (\<lambda>x. (fst x, PStr (cell_text repr (snd x)))) p)
      = map (\<lambda>(k, v). (k, clean_value v)) (map (\<lambda>x. (fst x, PStr (cell_text repr (snd x)))) p)"
    by (rule clean_project_map)
  also have "\<dots> = map (\<lambda>x. (fst x, clean_value (PStr (cell_text repr (snd x))))) p"
    by (simp add: comp_def)
  also have "\<dots> = map (\<lambda>x. x) p"
    using assms(3) by (intro map_cong refl) (simp add: cell_roundtrip)
  finally show ?thesis by (simp add: r m)
qed

lemma set_join: "set (join sep xs) \<subseteq> set sep \<union> \<Union> (set ` set xs)"
  by (induction sep xs rule: join.induct) auto

lemma set_join_append: "set (join_append fld q) \<subseteq> insert quotechar (set fld)"
  by (auto simp: join_append_def split: if_splits)

lemma valid_specials: "valid_char delimiter" "valid_char quotechar" "valid_char CR" "valid_char LF"
  by (simp_all add: valid_char_def delimiter_def quotechar_def CR_def LF_def)

lemma writerow_valid:
  assumes "\<forall>fld\<in>set row. \<forall>c\<in>set fld. valid_char c"
  shows "\<forall>c\<in>set (writerow row). valid_char c"
proof
  fix c assume c: "c \<in> set (writerow row)"
  let ?cells = "map (\<lambda>fld. join_append fld False) row"
  from c have "c \<in> set (join [delimiter] ?cells) \<or> c \<in> set (join_append [] True)
      \<or> c \<in> set lineterminator"
    by (auto simp: writerow_def Let_def split: if_splits)
  then consider (j) "c \<in> set (join [delimiter] ?cells)" | (q) "c \<in> set (join_append [] True)"
    | (l) "c \<in> set lineterminator" by blast
  then show "valid_char c"
  proof cases
    case j
    with set_join [of "[delimiter]" ?cells]
    have "c = delimiter \<or> (\<exists>fld\<in>set row. c \<in> set (join_append fld False))" by auto
    then show ?thesis
    proof
      assume "c = delimiter"
      then show ?thesis by (simp add: valid_specials)
    next
      assume "\<exists>fld\<in>set row. c \<in> set (join_append fld False)"
      then obtain fld where f: "fld \<in> set row" "c \<in> set (join_append fld False)" by blast
      with set_join_append [of fld False] have "c = quotechar \<or> c \<in> set fld" by auto
      with f(1) assms show ?thesis by (auto simp: valid_specials)
    qed
  next
    case q
    with set_join_append [of "[]" True] show ?thesis by (auto simp: valid_specials)
  next
    case l
    then show ?thesis by (auto simp: lineterminator_def valid_specials)
  qed
qed

lemma header_cells_Some: "header_cells (map Some F) = F"
  by (simp add: header_cells_def comp_def)

lemma stored_cell_good: "stored_value v \<Longrightarrow> good_text (cell_text repr v)"
  by (cases v) (simp_all add: stored_value_def cell_text_def good_text_Nil)

lemma clean_stored:
  "v = PNone \<or> (\<exists>s. v = PStr s \<and> good_text s) \<Longrightarrow> stored_value (clean_value v)"
  by (auto simp: stored_value_def clean_value_def truthy_def)

lemma stored_roundtrip:
  assumes ne: "projects \<noteq> []" and F: "F \<noteq> []" and gF: "\<forall>f\<in>set F. good_text f"
    and wf: "\<forall>p\<in>set projects. distinct (map fst p) \<and> map fst p = map Some F \<and>
                (\<forall>x\<in>set p. stored_value (snd x))"
    and c: "connect_ok st" and d: "download_ok st" and u: "upload_ok st"
  shows "\<exists>data. save_data repr projects st = (Inr (), st\<lparr>blob := Some data\<rparr>) \<and>
                 load_data (st\<lparr>blob := Some data\<rparr>) = Inr projects"
proof -
  let ?K = "map Some F"
  let ?rows = "map (row_cells repr ?K) projects"
  let ?out = "F # ?rows"
  define written where "written = concat (map writerow ?out)"
  from ne have "hd projects \<in> set projects" by simp
  with wf have k: "keys (hd projects) = ?K" by (simp add: keys_def)
  have t: "csv_text repr projects = written"
    by (simp add: written_def csv_text_def Let_def k header_cells_Some)
  have cells: "row_cells repr ?K p = map (\<lambda>x. cell_text repr (snd x)) p" if "p \<in> set projects" for p
    using that wf row_cells_self [of p repr] by auto
  have good: "\<forall>row\<in>set ?out. \<forall>fld\<in>set row. good_text fld"
  proof (intro ballI)
    fix row fld assume r: "row \<in> set ?out" and f: "fld \<in> set row"
    from r consider "row = F" | p where "p \<in> set projects" "row = row_cells repr ?K p" by auto
    then show "good_text fld"
    proof cases
      case 1
      with f gF show ?thesis by simp
    next
      case 2
      with f cells obtain x where "x \<in> set p" "fld = cell_text repr (snd x)" by auto
      with 2(1) wf show ?thesis by (auto simp: stored_cell_good)
    qed
  qed
  have "\<forall>c\<in>set written. valid_char c"
  proof
    fix c assume "c \<in> set written"
    then have "c \<in> set (concat (map writerow ?out))" by (simp only: written_def)
    then obtain row where r: "row \<in> set ?out" and cr: "c \<in> set (writerow row)" by auto
    from r good have "\<forall>fld\<in>set row. \<forall>c\<in>set fld. valid_char c"
      by (auto simp: good_text_def list_all_iff)
    from writerow_valid [OF this] cr show "valid_char c" by blast
  qed
  from utf8_roundtrip [OF this] obtain bs where
    enc: "utf8_encode written = Inr bs" and dec: "utf8_decode bs = Inr written" by blast
  from wf k have sub: "\<forall>d\<in>set projects. set (keys d) \<subseteq> set (keys (hd projects))"
    by (simp add: keys_def)
  have "save_data_body repr projects st = Inr (st\<lparr>blob := Some bs\<rparr>)"
    unfolding save_data_body_ok [OF sub] t
    using c u enc by (simp add: get_blob_client_def upload_blob_def)
  with ne have s: "save_data repr projects st = (Inr (), st\<lparr>blob := Some bs\<rparr>)"
    by (simp add: save_data_def)
  from good have "\<forall>row\<in>set ?out. \<forall>fld\<in>set row. length fld \<le> field_limit"
    by (auto simp: good_text_def)
  from read_written_rows [OF this]
  have rd: "reader_rows parse_reset (readlines written) = Inr ?out"
    by (simp only: read_text_def written_def)
  have lb: "load_data_body (st\<lparr>blob := Some bs\<rparr>) = Inr (map clean_project (DictReader ?out))"
    using c d by (simp add: load_data_body_def get_blob_client_def download_blob_def dec rd)
  have "\<forall>row\<in>set ?rows. row \<noteq> []"
  proof
    fix row assume "row \<in> set ?rows"
    then obtain p where "p \<in> set projects" "row = row_cells repr ?K p" by auto
    then have "length row = length F" by (simp add: row_cells_def)
    with F show "row \<noteq> []" by auto
  qed
  then have "filter (\<lambda>row. row \<noteq> []) ?rows = ?rows" by (simp only: filter_id_conv)
  then have "DictReader ?out = map (make_dict F) ?rows" by (simp add: DictReader_def)
  then have "map clean_project (DictReader ?out)
      = map (\<lambda>p. clean_project (make_dict F (row_cells repr ?K p))) projects"
    by (simp add: comp_def)
  also have "\<dots> = map (\<lambda>p. p) projects"
    using wf by (intro map_cong refl project_roundtrip) auto
  finally have "map clean_project (DictReader ?out) = projects" by simp
  with lb have "load_data (st\<lparr>blob := Some bs\<rparr>) = Inr projects" by (simp add: load_data_def)
  with s show ?thesis by blast
qed

lemma loaded_wellformed:
  assumes L: "load_data st = Inr projects" and ne: "projects \<noteq> []"
    and nk: "None \<notin> set (concat (map keys projects))"
  shows "\<exists>F. F \<noteq> [] \<and> (\<forall>f\<in>set F. good_text f) \<and>
           (\<forall>p\<in>set projects. distinct (map fst p) \<and> map fst p = map Some F \<and>
                (\<forall>x\<in>set p. stored_value (snd x)))"
proof -
  from load_data_rows [OF L] obtain data csv_data rows where
    dec: "utf8_decode data = Inr csv_data"
    and rd: "reader_rows parse_reset (readlines csv_data) = Inr rows"
    and p: "projects = map clean_project (DictReader rows)" by blast
  from p ne obtain F0 rest where rows: "rows = F0 # rest" by (cases rows) (auto simp: DictReader_def)
  let ?dat = "filter (\<lambda>row. row \<noteq> []) rest"
  from p rows have pd: "projects = map clean_project (map (make_dict F0) ?dat)"
    by (simp add: DictReader_def)
  from utf8_decode_valid [OF dec] have "list_all valid_char csv_data" by (simp add: list_all_iff)
  from good_reader_rows [OF good_reader_reset readlines_valid [OF this] rd]
  have g: "list_all (list_all good_text) rows" .
  let ?K = "first_keys (map Some F0) []"
  let ?F = "map the ?K"
  have setK: "set ?K = Some ` set F0" by (simp add: set_first_keys)
  then have KF: "map Some ?F = ?K" by (auto simp: comp_def intro!: map_idI)
  have each: "distinct (map fst q) \<and> map fst q = ?K \<and> (\<forall>x\<in>set q. stored_value (snd x))
              \<and> row \<noteq> [] \<and> length row \<le> length F0"
    if row: "row \<in> set ?dat" and q: "q = clean_project (make_dict F0 row)" for row q
  proof -
    let ?d = "make_dict F0 row"
    from row rows have m: "?d \<in> set (DictReader rows)" by (auto simp: DictReader_def)
    have cq: "q = map (\<lambda>(k, v). (k, clean_value v)) ?d"
      unfolding q using DictReader_distinct [OF m] by (rule clean_project_map)
    then have kq: "map fst q = map fst ?d" by (simp add: comp_def split_beta)
    from row pd q have "q \<in> set projects" by auto
    with nk have "None \<notin> set (map fst q)" by (auto simp: keys_def)
    with make_dict_long [of F0 row] kq have le: "length row \<le> length F0" by (cases "length F0 < length row") auto
    from row rows g have gr: "\<forall>s\<in>set row. good_text s" by (auto simp: list_all_iff)
    have "\<forall>x\<in>set q. stored_value (snd x)"
    proof
      fix x assume "x \<in> set q"
      with cq obtain k v where kv: "(k, v) \<in> set ?d" and x: "x = (k, clean_value v)" by auto
      from make_dict_cells [OF le kv] gr have "v = PNone \<or> (\<exists>s. v = PStr s \<and> good_text s)" by auto
      from clean_stored [OF this] x show "stored_value (snd x)" by simp
    qed
    with kq DictReader_distinct [OF m] make_dict_keys [OF le] row le show ?thesis by simp
  qed
  from ne pd obtain row where row: "row \<in> set ?dat" by (cases ?dat) auto
  from each [OF row refl] have "row \<noteq> []" "length row \<le> length F0" by simp_all
  then have F0: "F0 \<noteq> []" by auto
  with setK have "?K \<noteq> []" by auto
  then have 1: "?F \<noteq> []" by simp
  from rows g have "\<forall>f\<in>set F0. good_text f" by (auto simp: list_all_iff)
  with setK have 2: "\<forall>f\<in>set ?F. good_text f" by auto
  have 3: "\<forall>p\<in>set projects. distinct (map fst p) \<and> map fst p = map Some ?F \<and>
                (\<forall>x\<in>set p. stored_value (snd x))"
  proof
    fix q assume "q \<in> set projects"
    with pd obtain row where "row \<in> set ?dat" "q = clean_project (make_dict F0 row)" by auto
    from each [OF this] have "distinct (map fst q)" "map fst q = ?K"
      "\<forall>x\<in>set q. stored_value (snd x)" by blast+
    then show "distinct (map fst q) \<and> map fst q = map Some ?F \<and>
                (\<forall>x\<in>set q. stored_value (snd x))" unfolding KF by simp
  qed
  from 1 2 3 show ?thesis by blast
qed

lemma surplus_saved_text:
  "utf8_encode (csv_text plain_repr surplus_projects) = Inr (ascii_bytes surplus_saved_csv)"
  by (simp add: csv_text_def header_cells_def row_cells_def keys_def surplus_projects_def
      writerow_def join_append_def special_def cell_text_def list_str_def plain_repr_def
      lineterminator_def LF_def CR_def
      delimiter_def quotechar_def ascii_def ascii_bytes_def surplus_saved_csv_def CRLF_def
      encode_char_def)

lemma surplus_save:
  "save_data plain_repr surplus_projects surplus_store
   = (Inr (), surplus_store\<lparr>blob := Some (ascii_bytes surplus_saved_csv)\<rparr>)"
proof -
  have k: "\<forall>d\<in>set surplus_projects. set (keys d) \<subseteq> set (keys (hd surplus_projects))"
    by (simp add: surplus_projects_def keys_def)
  have "connect_ok surplus_store \<and> upload_ok surplus_store" by (simp add: surplus_store_def)
  then have "save_data_body plain_repr surplus_projects surplus_store
       = Inr (surplus_store\<lparr>blob := Some (ascii_bytes surplus_saved_csv)\<rparr>)"
    by (simp add: save_data_body_ok [OF k] surplus_saved_text get_blob_client_def upload_blob_def)
  then show ?thesis by (simp add: save_data_def surplus_projects_def)
qed

lemma surplus_saved_decode:
  "utf8_decode (ascii_bytes surplus_saved_csv) = Inr (ascii surplus_saved_csv)"
  by (simp add: utf8_decode.simps ascii_bytes_def ascii_def CRLF_def surplus_saved_csv_def)

lemma surplus_saved_rows:
  "reader_rows parse_reset (readlines (ascii surplus_saved_csv))
   = Inr [[ascii ''A'', []], [ascii ''1'', ascii (''['' @ [CHR 0x27, CHR 0x27] @ '']'')]]"
  by (simp add: ascii_def CRLF_def surplus_saved_csv_def reader_defs)

lemma surplus_reload:
  "load_data (surplus_store\<lparr>blob := Some (ascii_bytes surplus_saved_csv)\<rparr>) = Inr surplus_reloaded"
proof -
  have "load_data_body (surplus_store\<lparr>blob := Some (ascii_bytes surplus_saved_csv)\<rparr>) =
          Inr (map clean_project (DictReader
            [[ascii ''A'', []], [ascii ''1'', ascii (''['' @ [CHR 0x27, CHR 0x27] @ '']'')]]))"
    by (simp add: load_data_body_def surplus_store_def get_blob_client_def download_blob_def
        surplus_saved_decode surplus_saved_rows)
  then show ?thesis
    by (simp add: load_data_def DictReader_def make_dict_def AList.updates_def clean_project_def
        truthy_def surplus_reloaded_def ascii_def)
qed


section \<open>The claims\<close>

text \<open>
  C6: \<open>save_data\<close> on an empty list of projects returns without error and leaves the
  store, and with it the blob, as it was: nothing is uploaded.
\<close>

theorem save_data_empty_noop: "save_data repr [] st = (Inr (), st)"
  by (simp add: save_data_def)

text \<open>
  C5: when no key of the request body is a field of the target project, the loop of
  \<open>update_project\<close> over the body leaves the project as it was: no field is added and no
  value changes.
\<close>

theorem update_fields_unknown_keys_ignored:
  "\<forall>k\<in>set (keys project_data). k \<notin> set (keys project) \<Longrightarrow>
   update_fields project project_data = project"
  unfolding update_fields_def
  by (induction project_data) (auto simp: keys_def)

theorem update_fields_unknown_keys_ignored_witness:
  "Some (ascii ''NewField'') \<notin> set (keys (hd example_projects))
   \<and> update_fields (hd example_projects) [(Some (ascii ''NewField''), PStr (ascii ''x''))]
       = hd example_projects"
proof -
  have h: "\<forall>k\<in>set (keys [(Some (ascii ''NewField''), PStr (ascii ''x''))]).
      k \<notin> set (keys (hd example_projects))"
    by (simp add: keys_def example_projects_def ascii_def)
  from h update_fields_unknown_keys_ignored [OF h] show ?thesis by (simp add: keys_def)
qed

text \<open>
  C2: a PUT for a (category, name) pair that no project has. The handler raises the 404
  inside its \<open>try\<close>, and its own \<open>except Exception\<close> turns it into a 500; the store is
  not written.
\<close>

theorem update_project_absent_returns_500:
  "update_project plain_repr (ascii ''Rezoning'') (ascii ''Elm St'') [] example_store
   = (Inl (HTTPException 500 ''Failed to update project''), example_store)"
  by (simp add: update_project_def load_example updated_projects_def example_projects_def
      is_project_def getitem_def ascii_def)

text \<open>
  C3: a DELETE for a (category, name) pair that no project has. As for the PUT, the 404
  is raised inside the \<open>try\<close> and reaches the client as a 500; the store is not written.
\<close>

theorem delete_project_absent_returns_500:
  "delete_project plain_repr (ascii ''Rezoning'') (ascii ''Elm St'') example_store
   = (Inl (HTTPException 500 ''Failed to delete project''), example_store)"
  by (simp add: delete_project_def load_example example_projects_def
      is_project_def getitem_def ascii_def)

text \<open>
  C9: a POST whose body has a field name that the first project of the loaded dataset
  lacks. \<open>csv.DictWriter\<close> rejects the appended row, the handler fails with a 500 and the
  store is left as it was.
\<close>

theorem add_project_unknown_field_fails:
  assumes "load_data st = Inr projects" and "projects \<noteq> []"
    and "\<exists>k\<in>set (keys project_data). k \<notin> set (keys (hd projects))"
  shows "add_project repr project_data st
         = (Inl (HTTPException 500 ''Failed to add project''), st)"
  using assms by (rule add_project_extra_key)

theorem add_project_unknown_field_fails_witness:
  "load_data example_store = Inr example_projects \<and> example_projects \<noteq> []
   \<and> (\<exists>k\<in>set (keys [(Some (ascii ''NewField''), PStr (ascii ''x''))]).
         k \<notin> set (keys (hd example_projects)))
   \<and> add_project plain_repr [(Some (ascii ''NewField''), PStr (ascii ''x''))] example_store
       = (Inl (HTTPException 500 ''Failed to add project''), example_store)"
proof -
  have h2: "example_projects \<noteq> []" by (simp add: example_projects_def)
  have h3: "\<exists>k\<in>set (keys [(Some (ascii ''NewField''), PStr (ascii ''x''))]).
         k \<notin> set (keys (hd example_projects))"
    by (simp add: keys_def example_projects_def ascii_def)
  from load_example h2 h3 add_project_unknown_field_fails [OF load_example h2 h3]
  show ?thesis by blast
qed

text \<open>
  C8: when the submitted username and password are the configured ones, the token is what
  \<open>jwt.encode\<close> makes, with the configured secret and HS256, of the claims \<open>sub\<close> = the
  submitted username and \<open>exp\<close> = the time of issue plus 30 minutes; when either differs
  the endpoint raises a 401.
\<close>

theorem login_for_access_token_spec:
  "(Some username = ADMIN_USERNAME env \<and> Some password = ADMIN_PASSWORD env \<longrightarrow>
      login_for_access_token jwt_encode env utcnow username password =
        (case jwt_encode [(''sub'', ClaimStr username), (''exp'', ClaimTime (utcnow + 30 * 60 * 1000000))]
                (SECRET_KEY env) ''HS256'' of
           Inl e \<Rightarrow> Inl e
         | Inr t \<Rightarrow> Inr \<lparr>access_token = t, token_type = ''bearer''\<rparr>))
   \<and> (Some username \<noteq> ADMIN_USERNAME env \<or> Some password \<noteq> ADMIN_PASSWORD env \<longrightarrow>
      login_for_access_token jwt_encode env utcnow username password =
        Inl (HTTPException 401 ''Incorrect username or password''))"
  by (simp add: login_for_access_token_def create_access_token_def Let_def timedelta_minutes_def
      ACCESS_TOKEN_EXPIRE_MINUTES_def ALGORITHM_def)

theorem login_for_access_token_spec_witness:
  "Some (ascii ''admin'') = ADMIN_USERNAME example_environ
   \<and> Some (ascii ''hunter2'') = ADMIN_PASSWORD example_environ
   \<and> login_for_access_token example_encode example_environ 0 (ascii ''admin'') (ascii ''hunter2'')
       = Inr \<lparr>access_token = ascii ''admin'' @ [1800000000], token_type = ''bearer''\<rparr>
   \<and> Some (ascii ''guest'') \<noteq> ADMIN_USERNAME example_environ
   \<and> login_for_access_token example_encode example_environ 0 (ascii ''guest'') (ascii ''hunter2'')
       = Inl (HTTPException 401 ''Incorrect username or password'')"
  using login_for_access_token_spec [of "ascii ''admin''" example_environ "ascii ''hunter2''"
      example_encode 0]
    login_for_access_token_spec [of "ascii ''guest''" example_environ "ascii ''hunter2''"
      example_encode 0]
  by (simp add: example_environ_def example_encode_def ascii_def)

text \<open>
  C1, as the claim states it: a later record with a field that the first record lacks has
  that field dropped and the save succeeds. It does not: the save fails and the blob stays.
\<close>

theorem save_data_extra_field_counterexample:
  "save_data plain_repr
     [[(Some (ascii ''A''), PStr (ascii ''1''))],
      [(Some (ascii ''A''), PStr (ascii ''2'')), (Some (ascii ''B''), PStr (ascii ''3''))]]
     example_store
   = (Inl (HTTPException 500 ''Failed to save data''), example_store)"
  by (simp add: save_data_def save_data_body_def writer_defs AList.updates_def ascii_def)

text \<open>
  C1, amended: \<open>save_data\<close> takes the header from the field names of the first project.
  When the field names of every project are among them, it writes the header row and one
  row for each project, a missing field as an empty cell, and replaces the blob (provided
  the client connects, the text encodes and the upload goes through). When some project
  has a field name that the first lacks, the save fails with a 500 and the blob is left as
  it was.
\<close>

theorem save_data_header_from_first_record:
  assumes "projects \<noteq> []"
  shows "((\<forall>d\<in>set projects. set (keys d) \<subseteq> set (keys (hd projects))) \<and> connect_ok st \<and> upload_ok st
          \<and> utf8_encode (csv_text repr projects) = Inr data
          \<longrightarrow> save_data repr projects st = (Inr (), st\<lparr>blob := Some data\<rparr>))
       \<and> ((\<exists>d\<in>set projects. \<not> set (keys d) \<subseteq> set (keys (hd projects)))
          \<longrightarrow> save_data repr projects st = (Inl (HTTPException 500 ''Failed to save data''), st))"
proof (intro conjI impI)
  assume a: "(\<forall>d\<in>set projects. set (keys d) \<subseteq> set (keys (hd projects))) \<and> connect_ok st \<and> upload_ok st
          \<and> utf8_encode (csv_text repr projects) = Inr data"
  then have "save_data_body repr projects st = Inr (st\<lparr>blob := Some data\<rparr>)"
    by (simp add: save_data_body_ok get_blob_client_def upload_blob_def)
  with assms show "save_data repr projects st = (Inr (), st\<lparr>blob := Some data\<rparr>)"
    by (simp add: save_data_def)
next
  assume "\<exists>d\<in>set projects. \<not> set (keys d) \<subseteq> set (keys (hd projects))"
  with assms show "save_data repr projects st = (Inl (HTTPException 500 ''Failed to save data''), st)"
    by (rule save_data_extra_key)
qed

theorem save_data_header_from_first_record_witness:
  "example_projects \<noteq> []
   \<and> save_data plain_repr example_projects example_store
       = (Inr (), example_store\<lparr>blob := Some (ascii_bytes example_csv)\<rparr>)
   \<and> save_data plain_repr
       [[(Some (ascii ''A''), PStr (ascii ''1''))],
        [(Some (ascii ''A''), PStr (ascii ''2'')), (Some (ascii ''B''), PStr (ascii ''3''))]]
       example_store
       = (Inl (HTTPException 500 ''Failed to save data''), example_store)"
proof -
  have ne: "example_projects \<noteq> []" by (simp add: example_projects_def)
  have a: "(\<forall>d\<in>set example_projects. set (keys d) \<subseteq> set (keys (hd example_projects)))
      \<and> connect_ok example_store \<and> upload_ok example_store
      \<and> utf8_encode (csv_text plain_repr example_projects) = Inr (ascii_bytes example_csv)"
    using example_csv_text by (simp add: example_projects_def example_store_def)
  let ?ps = "[[(Some (ascii ''A''), PStr (ascii ''1''))],
        [(Some (ascii ''A''), PStr (ascii ''2'')), (Some (ascii ''B''), PStr (ascii ''3''))]]"
  have ne2: "?ps \<noteq> []" by simp
  have b: "\<exists>d\<in>set ?ps. \<not> set (keys d) \<subseteq> set (keys (hd ?ps))"
    by (simp add: keys_def ascii_def)
  from save_data_header_from_first_record [OF ne, of example_store plain_repr "ascii_bytes example_csv"] a
  have 1: "save_data plain_repr example_projects example_store
       = (Inr (), example_store\<lparr>blob := Some (ascii_bytes example_csv)\<rparr>)" by blast
  from save_data_header_from_first_record [OF ne2, of example_store plain_repr "[]"] b
  have 2: "save_data plain_repr ?ps example_store
       = (Inl (HTTPException 500 ''Failed to save data''), example_store)" by blast
  from ne 1 2 show ?thesis by blast
qed

text \<open>
  C10: a PUT that succeeds has loaded the projects, changed the first one that matches
  (category, name) and saved the list; every other project of the saved list, a later one
  with the same pair included, is the loaded one.
\<close>

theorem update_project_frame:
  assumes "update_project repr c n patch st = (Inr msg, st')"
  shows "\<exists>projects projects' i.
           load_data st = Inr projects \<and>
           updated_projects c n patch projects = Inr projects' \<and>
           save_data repr projects' st = (Inr (), st') \<and>
           i < length projects \<and> length projects' = length projects \<and>
           is_project c n (projects ! i) = Inr True \<and>
           (\<forall>j<i. is_project c n (projects ! j) = Inr False) \<and>
           (\<forall>j<length projects. j \<noteq> i \<longrightarrow> projects' ! j = projects ! j)"
proof -
  from assms obtain projects projects' where
    l: "load_data st = Inr projects" and u: "updated_projects c n patch projects = Inr projects'"
    and s: "save_data repr projects' st = (Inr (), st')"
    by (auto simp: update_project_def Let_def split: sum.splits prod.splits)
  from updated_projects_frame [OF u] obtain i where
    "i < length projects" "is_project c n (projects ! i) = Inr True"
    "\<forall>j<i. is_project c n (projects ! j) = Inr False"
    "projects' = projects[i := update_fields (projects ! i) patch]" by blast
  with l u s show ?thesis by (intro exI [of _ projects] exI [of _ projects'] exI [of _ i]) simp
qed

theorem update_project_frame_witness:
  "update_project plain_repr (ascii ''R'') (ascii ''Oak'') dup_patch dup_store
     = (Inr ''Project updated successfully'',
        dup_store\<lparr>blob := Some (ascii_bytes dup_updated_csv)\<rparr>)
   \<and> load_data dup_store = Inr dup_projects
   \<and> updated_projects (ascii ''R'') (ascii ''Oak'') dup_patch dup_projects = Inr dup_updated
   \<and> save_data plain_repr dup_updated dup_store
       = (Inr (), dup_store\<lparr>blob := Some (ascii_bytes dup_updated_csv)\<rparr>)
   \<and> length dup_projects = 3
   \<and> is_project (ascii ''R'') (ascii ''Oak'') (dup_projects ! 0) = Inr True
   \<and> is_project (ascii ''R'') (ascii ''Oak'') (dup_projects ! 2) = Inr True
   \<and> dup_updated ! 0 \<noteq> dup_projects ! 0
   \<and> dup_updated ! 1 = dup_projects ! 1
   \<and> dup_updated ! 2 = dup_projects ! 2"
proof -
  from update_project_frame [OF dup_update] obtain projects projects' i where
    l: "load_data dup_store = Inr projects"
    and u: "updated_projects (ascii ''R'') (ascii ''Oak'') dup_patch projects = Inr projects'"
    and s: "save_data plain_repr projects' dup_store
             = (Inr (), dup_store\<lparr>blob := Some (ascii_bytes dup_updated_csv)\<rparr>)"
    and i: "i < length projects"
    and m: "is_project (ascii ''R'') (ascii ''Oak'') (projects ! i) = Inr True"
    and f: "\<forall>j<i. is_project (ascii ''R'') (ascii ''Oak'') (projects ! j) = Inr False"
    and o: "\<forall>j<length projects. j \<noteq> i \<longrightarrow> projects' ! j = projects ! j"
    by blast
  from l have p: "projects = dup_projects" by (simp add: load_dup)
  from u have p': "projects' = dup_updated" by (simp add: p dup_updated_projects)
  have "i = 0"
  proof (rule ccontr)
    assume "i \<noteq> 0"
    then have "0 < i" by simp
    with f have "is_project (ascii ''R'') (ascii ''Oak'') (projects ! 0) = Inr False" by blast
    then show False by (simp add: p dup_facts(2))
  qed
  with o have "dup_updated ! 1 = dup_projects ! 1" "dup_updated ! 2 = dup_projects ! 2"
    by (simp_all add: p p' dup_facts(1))
  with dup_update load_dup dup_updated_projects s dup_facts show ?thesis
    unfolding p' by blast
qed

text \<open>
  C7: the projects that \<open>load_data\<close> returns are the dicts that \<open>csv.DictReader\<close> makes of
  the rows of the blob, in their order and with their keys, where every value that is the
  empty string has become \<open>None\<close> and every other value is the one read; so no project
  returned has a field whose value is the empty string. (A cell beyond the columns of the
  header is not the value of a field: \<open>csv.DictReader\<close> collects such cells in a list under
  the key \<open>None\<close>, and this list, which is never empty, is kept as it is, see
  \<open>load_surplus\<close>.)
\<close>

theorem load_data_normalises_empty_strings:
  assumes "load_data st = Inr projects"
  shows "\<exists>data csv_data rows.
           blob st = Some data \<and> utf8_decode data = Inr csv_data \<and>
           reader_rows parse_reset (readlines csv_data) = Inr rows \<and>
           projects = map (map (\<lambda>(k, v). (k, if v = PStr [] then PNone else v))) (DictReader rows) \<and>
           (\<forall>p\<in>set projects. \<forall>(k, v)\<in>set p. v \<noteq> PStr [])"
proof -
  from load_data_rows [OF assms] obtain data csv_data rows where
    b: "blob st = Some data" and d: "utf8_decode data = Inr csv_data"
    and r: "reader_rows parse_reset (readlines csv_data) = Inr rows"
    and p: "projects = map clean_project (DictReader rows)" by blast
  have eq: "projects = map (map (\<lambda>(k, v). (k, if v = PStr [] then PNone else v))) (DictReader rows)"
    unfolding p by (intro map_cong refl clean_project_reader)
  have "\<forall>p\<in>set projects. \<forall>(k, v)\<in>set p. v \<noteq> PStr []"
    unfolding eq by (auto split: if_splits)
  with b d r eq show ?thesis by blast
qed

theorem load_data_normalises_empty_strings_witness:
  "load_data example_store = Inr example_projects
   \<and> DictReader [[ascii ''Category'', ascii ''Project Name'', ascii ''Due''],
                 [ascii ''Rezoning'', ascii ''Oak St'', []]]
     = [[(Some (ascii ''Category''), PStr (ascii ''Rezoning'')),
         (Some (ascii ''Project Name''), PStr (ascii ''Oak St'')),
         (Some (ascii ''Due''), PStr [])]]
   \<and> example_projects
     = [[(Some (ascii ''Category''), PStr (ascii ''Rezoning'')),
         (Some (ascii ''Project Name''), PStr (ascii ''Oak St'')),
         (Some (ascii ''Due''), PNone)]]
   \<and> (\<exists>data csv_data rows.
           blob example_store = Some data \<and> utf8_decode data = Inr csv_data \<and>
           reader_rows parse_reset (readlines csv_data) = Inr rows \<and>
           example_projects
             = map (map (\<lambda>(k, v). (k, if v = PStr [] then PNone else v))) (DictReader rows) \<and>
           (\<forall>p\<in>set example_projects. \<forall>(k, v)\<in>set p. v \<noteq> PStr []))"
proof -
  have 1: "DictReader [[ascii ''Category'', ascii ''Project Name'', ascii ''Due''],
                 [ascii ''Rezoning'', ascii ''Oak St'', []]]
     = [[(Some (ascii ''Category''), PStr (ascii ''Rezoning'')),
         (Some (ascii ''Project Name''), PStr (ascii ''Oak St'')),
         (Some (ascii ''Due''), PStr [])]]"
    by (simp add: DictReader_def make_dict_def AList.updates_def ascii_def)
  from load_example 1 example_projects_def load_data_normalises_empty_strings [OF load_example]
  show ?thesis by blast
qed

text \<open>
  C4, as it stands, fails on a dataset whose rows have more cells than the header: the
  store \<open>surplus_store\<close> loads as one project with the surplus cell in a list under the
  key \<open>None\<close>; saving it writes an empty header cell and the \<open>str()\<close> of the list, and
  loading again gives a project with the field \<open>''\<close> holding that text.
\<close>

theorem load_save_load_surplus_counterexample:
  "load_data surplus_store = Inr surplus_projects
   \<and> surplus_projects \<noteq> []
   \<and> length surplus_projects = 1
   \<and> upload_ok surplus_store
   \<and> save_data plain_repr surplus_projects surplus_store
       = (Inr (), surplus_store\<lparr>blob := Some (ascii_bytes surplus_saved_csv)\<rparr>)
   \<and> load_data (surplus_store\<lparr>blob := Some (ascii_bytes surplus_saved_csv)\<rparr>)
       = Inr surplus_reloaded
   \<and> surplus_reloaded \<noteq> surplus_projects
   \<and> map_of (hd surplus_projects) None = Some (PList [[]])
   \<and> map_of (hd surplus_reloaded) None = None"
proof -
  have "surplus_projects \<noteq> []" "length surplus_projects = 1" "upload_ok surplus_store"
    "surplus_reloaded \<noteq> surplus_projects"
    "map_of (hd surplus_projects) None = Some (PList [[]])"
    "map_of (hd surplus_reloaded) None = None"
    by (simp_all add: surplus_projects_def surplus_reloaded_def surplus_store_def)
  with load_surplus surplus_save surplus_reload show ?thesis by blast
qed

text \<open>
  C4: when \<open>load_data\<close> returns a list of projects that is not empty and in which no
  project has the key \<open>None\<close> (no row of the blob has more cells than the header), and
  the upload goes through, then \<open>save_data\<close> of this list succeeds and overwrites the
  blob, and \<open>load_data\<close> on the new store returns the same list of projects.
\<close>

theorem load_save_load:
  assumes "load_data st = Inr projects" and "projects \<noteq> []"
    and "None \<notin> set (concat (map keys projects))" and "upload_ok st"
  shows "\<exists>data. save_data repr projects st = (Inr (), st\<lparr>blob := Some data\<rparr>) \<and>
                 load_data (st\<lparr>blob := Some data\<rparr>) = Inr projects"
proof -
  from loaded_wellformed [OF assms(1-3)] obtain F where
    F: "F \<noteq> []" "\<forall>f\<in>set F. good_text f"
    "\<forall>p\<in>set projects. distinct (map fst p) \<and> map fst p = map Some F \<and>
                (\<forall>x\<in>set p. stored_value (snd x))" by blast
  from load_data_rows [OF assms(1)] have "connect_ok st" "download_ok st" by blast+
  from stored_roundtrip [OF assms(2) F this assms(4)] show ?thesis .
qed

theorem load_save_load_witness:
  "load_data dup_store = Inr dup_projects
   \<and> dup_projects \<noteq> []
   \<and> None \<notin> set (concat (map keys dup_projects))
   \<and> upload_ok dup_store
   \<and> (\<exists>data. save_data plain_repr dup_projects dup_store
                  = (Inr (), dup_store\<lparr>blob := Some data\<rparr>) \<and>
                load_data (dup_store\<lparr>blob := Some data\<rparr>) = Inr dup_projects)"
proof -
  have h: "dup_projects \<noteq> []" "None \<notin> set (concat (map keys dup_projects))" "upload_ok dup_store"
    by (simp_all add: dup_projects_def keys_def dup_store_def)
  from load_dup h load_save_load [OF load_dup h] show ?thesis by blast
qed

end
